theory Spec2Isabelle
  imports Main "HOL-Library.Product_Lexorder" "HOL-Library.List_Lexorder"
begin

section \<open>Strings and integers as the Python code uses them\<close>

text \<open>
  A Python \<open>str\<close> is modelled as a \<open>string\<close>: a list of characters, each read as the code
  point below 256 that it stands for.  Python's \<open>int\<close> is HOL's \<open>int\<close>.  Every exception
  that the modelled code can raise is a value of \<open>error\<close>; \<open>Exit\<close> is \<open>typer.Exit\<close>.
\<close>

datatype error = ValueError | KeyError | IndexError | Exit

text \<open>\<open>s.lstrip(chars)\<close>: drop every leading character that occurs in \<open>chars\<close>.\<close>

definition lstrip :: "string \<Rightarrow> string \<Rightarrow> string" where
  "lstrip chars s = dropWhile (\<lambda>c. c \<in> set chars) s"

text \<open>\<open>s.partition(sep)\<close> for a separator of one character: cut at its first occurrence.\<close>

definition str_partition :: "char \<Rightarrow> string \<Rightarrow> string \<times> string \<times> string" where
  "str_partition sep s =
     (if sep \<in> set s
      then (takeWhile (\<lambda>c. c \<noteq> sep) s, [sep], tl (dropWhile (\<lambda>c. c \<noteq> sep) s))
      else (s, [], []))"

text \<open>\<open>s.split(sep)\<close> for a separator of one character: empty pieces are kept.\<close>

fun str_split :: "char \<Rightarrow> string \<Rightarrow> string list" where
  "str_split sep [] = [[]]"
| "str_split sep (c # cs) =
     (if c = sep then [] # str_split sep cs
      else (case str_split sep cs of [] \<Rightarrow> [[c]] | p # ps \<Rightarrow> (c # p) # ps))"

text \<open>\<open>sep.join(xs)\<close>.\<close>

fun join :: "string \<Rightarrow> string list \<Rightarrow> string" where
  "join sep [] = []"
| "join sep [x] = x"
| "join sep (x # y # ys) = x @ sep @ join sep (y # ys)"

text \<open>\<open>s.startswith(p)\<close>.\<close>

definition startswith :: "string \<Rightarrow> string \<Rightarrow> bool" where
  "startswith s p = (take (length p) s = p)"

text \<open>The decimal digits \<open>0\<close> to \<open>9\<close>: what \<open>\d\<close> and \<open>int\<close> accept below code point 256.\<close>

definition is_digit :: "char \<Rightarrow> bool" where
  "is_digit c = (48 \<le> (of_char c :: int) \<and> (of_char c :: int) \<le> 57)"

definition digit_val :: "char \<Rightarrow> int" where
  "digit_val c = of_char c - 48"

definition digit_char :: "int \<Rightarrow> char" where
  "digit_char d = char_of (48 + d)"

text \<open>
  The characters that \<open>int\<close> strips from both ends: the tab, the line feed, the
  vertical tab, the form feed, the carriage return and the space, and, of the characters
  from 128 on, the two that are Unicode spaces below 256 (next line, 133, and no-break
  space, 160), which \<open>int\<close> turns into spaces before it reads the number.  The
  separators 28 to 31 are not stripped.
\<close>

definition is_space :: "char \<Rightarrow> bool" where
  "is_space c = ((of_char c :: int) \<in> {9, 10, 11, 12, 13, 32, 133, 160})"

definition strip_space :: "string \<Rightarrow> string" where
  "strip_space s = rev (dropWhile is_space (rev (dropWhile is_space s)))"

text \<open>The value of a run of decimal digits, most significant first.\<close>

definition digits_value :: "string \<Rightarrow> int" where
  "digits_value ds = foldl (\<lambda>a c. 10 * a + digit_val c) 0 ds"

text \<open>
  \<open>int(s)\<close> in base ten: whitespace at both ends is dropped, one sign may lead, and the
  digits may be grouped by single underscores; anything else raises \<open>ValueError\<close>.
  So does a number of more digits than \<open>sys.get_int_max_str_digits()\<close>, which is 4300
  unless the interpreter is configured otherwise; the sign and the underscores are not
  counted, leading zeros are.
\<close>

definition int_max_str_digits :: int where
  "int_max_str_digits = 4300"

definition digit_groups_ok :: "string \<Rightarrow> bool" where
  "digit_groups_ok body = list_all (\<lambda>g. g \<noteq> [] \<and> list_all is_digit g) (str_split (CHR ''_'') body)"

definition py_int :: "string \<Rightarrow> error + int" where
  "py_int s =
     (let t = strip_space s;
          (neg, body) = (case t of
                           [] \<Rightarrow> (False, [])
                         | c # cs \<Rightarrow> if c = CHR ''-'' then (True, cs)
                                    else if c = CHR ''+'' then (False, cs)
                                    else (False, t))
      in if digit_groups_ok body
         then (let digits = filter (\<lambda>c. c \<noteq> CHR ''_'') body
               in if int (length digits) > int_max_str_digits then Inl ValueError
                  else (let n = digits_value digits in Inr (if neg then - n else n)))
         else Inl ValueError)"

text \<open>
  \<open>str(i)\<close> for an integer: decimal, no leading zero, a minus sign when negative.
  \<open>digits_of\<close> writes the digits of a number that is not negative.  (\<open>str\<close> has the
  same limit of digits as \<open>int\<close>; every number that \<open>parse_version\<close> puts into a version
  was read by \<open>int\<close> and is below it, so the limit is left out here.)
\<close>

function digits_of :: "int \<Rightarrow> string" where
  "digits_of n = (if n < 10 then [digit_char n] else digits_of (n div 10) @ [digit_char (n mod 10)])"
  by pat_completeness auto
termination
  by (relation "measure nat") auto

declare digits_of.simps [simp del]

definition py_str :: "int \<Rightarrow> string" where
  "py_str i = (if i < 0 then CHR ''-'' # digits_of (- i) else digits_of i)"

text \<open>\<open>[int(p) for p in ps]\<close>, as \<open>map(int, ps)\<close> consumed in order: the first failure raises.\<close>

fun map_int :: "string list \<Rightarrow> error + int list" where
  "map_int [] = Inr []"
| "map_int (p # ps) =
     (case py_int p of
        Inl e \<Rightarrow> Inl e
      | Inr i \<Rightarrow> (case map_int ps of Inl e \<Rightarrow> Inl e | Inr is \<Rightarrow> Inr (i # is)))"

section \<open>Versions\<close>

text \<open>The named tuple \<open>Version\<close>; \<open>build\<close> is a tuple of integers of any length.\<close>

datatype version = Version (major: int) (minor: int) (patch: int)
  (stage_priority: int) (stage_number: int) (build: "int list")

text \<open>
  The dictionary \<open>stage_priority_map\<close> of \<open>parse_version\<close>; its keys are the stage names and
  \<open>None\<close> (no suffix).  \<open>stage_priority_of\<close> is \<open>stage_priority_map.get(stage, -1)\<close>.
\<close>

definition stage_priority_map :: "string option \<rightharpoonup> int" where
  "stage_priority_map =
     [Some ''alpha'' \<mapsto> 0, Some ''preview'' \<mapsto> 1, Some ''rc'' \<mapsto> 2, Some ''rtm'' \<mapsto> 3, None \<mapsto> 4]"

definition stage_priority_of :: "string option \<Rightarrow> int" where
  "stage_priority_of stage = (case stage_priority_map stage of None \<Rightarrow> - 1 | Some p \<Rightarrow> p)"

text \<open>
  The two regular expressions of \<open>parse_version\<close>, applied with \<open>re.match\<close>: anchored at
  the start of the suffix and free at its end.

  \<open>match_stage\<close> is the group \<open>(alpha|preview|rc|rtm)\<close>: the first alternative that is a
  prefix (no name is a prefix of another, so retrying a later alternative never helps).
  \<open>\d+\<close> and \<open>[\d.]+\<close> are greedy: each takes the longest run.  A shorter \<open>\d+\<close> would
  have to be followed by \<open>.\<close> where a digit stands, so the longest run is the only
  candidate, and \<open>[\d.]+\<close> ends the pattern.
\<close>

definition match_stage :: "string \<Rightarrow> (string \<times> string) option" where
  "match_stage s =
     (case find (\<lambda>name. startswith s name) [''alpha'', ''preview'', ''rc'', ''rtm''] of
        None \<Rightarrow> None
      | Some name \<Rightarrow> Some (name, drop (length name) s))"

definition is_digit_or_dot :: "char \<Rightarrow> bool" where
  "is_digit_or_dot c = (is_digit c \<or> c = CHR ''.'')"

text \<open>\<open>\.\<close> at the head of a string: the rest after the dot, if there is one.\<close>

definition eat_dot :: "string \<Rightarrow> string option" where
  "eat_dot s = (case s of [] \<Rightarrow> None | c # cs \<Rightarrow> if c = CHR ''.'' then Some cs else None)"

text \<open>\<open>(alpha|preview|rc|rtm)\.(\d+)\.([\d.]+)\<close>: the three groups of a match.\<close>

definition full_match :: "string \<Rightarrow> (string \<times> string \<times> string) option" where
  "full_match suffix =
     (case match_stage suffix of
        None \<Rightarrow> None
      | Some (stage, r1) \<Rightarrow>
          (case eat_dot r1 of
             None \<Rightarrow> None
           | Some r2 \<Rightarrow>
               (let num = takeWhile is_digit r2 in
                if num = [] then None
                else (case eat_dot (dropWhile is_digit r2) of
                        None \<Rightarrow> None
                      | Some r3 \<Rightarrow>
                          (let b = takeWhile is_digit_or_dot r3 in
                           if b = [] then None else Some (stage, num, b))))))"

text \<open>\<open>(alpha|preview|rc|rtm)\.([\d.]+)\<close>: the two groups of a match.\<close>

definition simple_match :: "string \<Rightarrow> (string \<times> string) option" where
  "simple_match suffix =
     (case match_stage suffix of
        None \<Rightarrow> None
      | Some (stage, r1) \<Rightarrow>
          (case eat_dot r1 of
             None \<Rightarrow> None
           | Some r2 \<Rightarrow>
               (let b = takeWhile is_digit_or_dot r2 in
                if b = [] then None else Some (stage, b))))"

text \<open>
  \<open>major, minor, patch = map(int, parts[:3])\<close>: the conversions run in order, and fewer
  than three values raise \<open>ValueError\<close> as a failed conversion does.
\<close>

definition unpack3 :: "string list \<Rightarrow> error + (int \<times> int \<times> int)" where
  "unpack3 parts =
     (case map_int (take 3 parts) of
        Inl e \<Rightarrow> Inl e
      | Inr [a, b, c] \<Rightarrow> Inr (a, b, c)
      | Inr _ \<Rightarrow> Inl ValueError)"

text \<open>
  The stage, stage number and build that the suffix gives; \<open>stage\<close> is \<open>None\<close> for no
  suffix and \<open>Some ''unknown''\<close> for a suffix that neither pattern matches.
\<close>

definition parse_suffix :: "string \<Rightarrow> error + (string option \<times> int \<times> int list)" where
  "parse_suffix suffix =
     (if suffix \<noteq> [] then
        (case full_match suffix of
           Some (stage, g2, g3) \<Rightarrow>
             (case py_int g2 of
                Inl e \<Rightarrow> Inl e
              | Inr n \<Rightarrow>
                  (case map_int (str_split (CHR ''.'') g3) of
                     Inl e \<Rightarrow> Inl e
                   | Inr b \<Rightarrow> Inr (Some stage, n, b)))
         | None \<Rightarrow>
             (case simple_match suffix of
                Some (stage, g2) \<Rightarrow>
                  (case map_int (str_split (CHR ''.'') g2) of
                     Inl e \<Rightarrow> Inl e
                   | Inr b \<Rightarrow> Inr (Some stage, 0, b))
              | None \<Rightarrow> Inr (Some ''unknown'', 0, [])))
      else Inr (None, 0, []))"

definition parse_version :: "string \<Rightarrow> error + version" where
  "parse_version tag0 =
     (let tag = lstrip ''v'' tag0;
          (base_part, _, suffix) = str_partition (CHR ''-'') tag;
          parts = str_split (CHR ''.'') base_part
      in case unpack3 parts of
           Inl e \<Rightarrow> Inl e
         | Inr (major', minor', patch') \<Rightarrow>
             (case parse_suffix suffix of
                Inl e \<Rightarrow> Inl e
              | Inr (stage, stage_number', build') \<Rightarrow>
                  Inr (Version major' minor' patch' (stage_priority_of stage) stage_number' build')))"

text \<open>
  The dictionary of stage names that \<open>version_to_string\<close> and
  \<open>normalized_version_for_nuget\<close> index with \<open>v.stage_priority\<close>; a missing key raises
  \<open>KeyError\<close>.
\<close>

definition stage_names :: "int \<rightharpoonup> string" where
  "stage_names = [0 \<mapsto> ''alpha'', 1 \<mapsto> ''preview'', 2 \<mapsto> ''rc'', 3 \<mapsto> ''rtm'']"

definition version_to_string :: "version \<Rightarrow> error + string" where
  "version_to_string v =
     (let base = py_str (major v) @ ''.'' @ py_str (minor v) @ ''.'' @ py_str (patch v)
      in if stage_priority v < 4 then
           (case stage_names (stage_priority v) of
              None \<Rightarrow> Inl KeyError
            | Some suffix \<Rightarrow>
                (let build' = join ''.'' (map py_str (build v))
                 in Inr (base @ ''-'' @ suffix @ ''.'' @ py_str (stage_number v) @ ''.'' @ build')))
         else Inr base)"

definition normalized_version_for_nuget :: "version \<Rightarrow> error + string" where
  "normalized_version_for_nuget v =
     (let base = py_str (major v) @ ''.'' @ py_str (minor v) @ ''.0''
      in if stage_priority v < 4 then
           (case stage_names (stage_priority v) of
              None \<Rightarrow> Inl KeyError
            | Some suffix \<Rightarrow>
                (let build' = join ''.'' (map py_str (build v))
                 in Inr (base @ ''-'' @ suffix @ ''.'' @ py_str (stage_number v) @ ''.'' @ build')))
         else Inr base)"

definition is_version_in_nuget :: "string set \<Rightarrow> version \<Rightarrow> error + bool" where
  "is_version_in_nuget nuget_versions version =
     (case normalized_version_for_nuget version of
        Inl e \<Rightarrow> Inl e
      | Inr key \<Rightarrow> Inr (key \<in> nuget_versions))"

section \<open>The order of versions\<close>

text \<open>
  \<open>Version\<close> is a named tuple, so \<open><\<close> and \<open>==\<close> on versions are those of Python
  tuples: \<open>==\<close> is equality of all items, and \<open><\<close> looks for the first position where
  the items differ and compares the items there; when one tuple runs out first, the
  shorter one is the smaller.  \<open>tuple_lt\<close> is \<open><\<close> on tuples of integers (the \<open>build\<close>
  field), \<open>version_lt\<close> is \<open><\<close> on the six fields in their order.
\<close>

fun tuple_lt :: "int list \<Rightarrow> int list \<Rightarrow> bool" where
  "tuple_lt [] [] = False"
| "tuple_lt [] (y # ys) = True"
| "tuple_lt (x # xs) [] = False"
| "tuple_lt (x # xs) (y # ys) = (if x = y then tuple_lt xs ys else x < y)"

definition version_lt :: "version \<Rightarrow> version \<Rightarrow> bool" where
  "version_lt a b =
     (if major a \<noteq> major b then major a < major b
      else if minor a \<noteq> minor b then minor a < minor b
      else if patch a \<noteq> patch b then patch a < patch b
      else if stage_priority a \<noteq> stage_priority b then stage_priority a < stage_priority b
      else if stage_number a \<noteq> stage_number b then stage_number a < stage_number b
      else tuple_lt (build a) (build b))"

text \<open>
  The order as the design document words it: the lexicographic order of the six fields,
  with \<open>build\<close> compared as a sequence.  It is written with the library's lexicographic
  orders on pairs and on lists, to be compared with \<open>version_lt\<close>.
\<close>

definition version_key :: "version \<Rightarrow> int \<times> int \<times> int \<times> int \<times> int \<times> int list" where
  "version_key v = (major v, minor v, patch v, stage_priority v, stage_number v, build v)"

definition lexicographic_lt :: "version \<Rightarrow> version \<Rightarrow> bool" where
  "lexicographic_lt a b = (version_key a < version_key b)"

lemma tuple_lt_iff_less: "tuple_lt xs ys \<longleftrightarrow> xs < ys"
  by (induction xs ys rule: tuple_lt.induct) auto

lemma version_lt_iff_key: "version_lt a b \<longleftrightarrow> version_key a < version_key b"
  by (auto simp: version_lt_def version_key_def less_prod_def less_eq_prod_def tuple_lt_iff_less)

lemma version_key_inj: "version_key a = version_key b \<longleftrightarrow> a = b"
  by (cases a; cases b) (simp add: version_key_def)

instantiation version :: linorder
begin

definition less_version :: "version \<Rightarrow> version \<Rightarrow> bool" where
  "less_version a b = version_lt a b"

definition less_eq_version :: "version \<Rightarrow> version \<Rightarrow> bool" where
  "less_eq_version a b = (\<not> version_lt b a)"

instance
proof
  fix x y z :: version
  show "x < y \<longleftrightarrow> x \<le> y \<and> \<not> y \<le> x"
    by (auto simp: less_version_def less_eq_version_def version_lt_iff_key)
  show "x \<le> x"
    by (simp add: less_eq_version_def version_lt_iff_key)
  show "x \<le> y \<Longrightarrow> y \<le> z \<Longrightarrow> x \<le> z"
    by (auto simp: less_eq_version_def version_lt_iff_key)
  show "x \<le> y \<Longrightarrow> y \<le> x \<Longrightarrow> x = y"
    using version_key_inj [of x y]
    by (auto simp: less_eq_version_def version_lt_iff_key)
  show "x \<le> y \<or> y \<le> x"
    by (auto simp: less_eq_version_def version_lt_iff_key)
qed

end

section \<open>Tags and catalogs\<close>

text \<open>
  A release of the catalog is a dictionary decoded from JSON; the code reads only its key
  \<open>tag_name\<close>.  It is an association list from keys to values, the values being strings.
  \<open>getitem\<close> is \<open>t[k]\<close>, which raises \<open>KeyError\<close> for a missing key; \<open>t.get(k)\<close> is
  \<open>map_of t k\<close>.  \<open>truthy\<close> is the truth value of an optional string: \<open>None\<close> and the
  empty string are false.
\<close>

type_synonym tag = "(string \<times> string) list"

definition getitem :: "tag \<Rightarrow> string \<Rightarrow> error + string" where
  "getitem t k = (case map_of t k of None \<Rightarrow> Inl KeyError | Some v \<Rightarrow> Inr v)"

definition truthy :: "string option \<Rightarrow> bool" where
  "truthy x = (case x of None \<Rightarrow> False | Some s \<Rightarrow> s \<noteq> [])"

text \<open>A release that has the tag name \<open>name\<close> and nothing else.\<close>

definition release :: "string \<Rightarrow> tag" where
  "release name = [(''tag_name'', name)]"

text \<open>\<open>d[k]\<close> on the dictionary from versions to tag names.\<close>

definition lookup :: "(version \<rightharpoonup> string) \<Rightarrow> version \<Rightarrow> error + string" where
  "lookup m v = (case m v of None \<Rightarrow> Inl KeyError | Some name \<Rightarrow> Inr name)"

text \<open>
  \<open>bisect.bisect_left(a, x)\<close> of the standard library, with its defaults \<open>lo = 0\<close> and
  \<open>hi = len(a)\<close>: the loop halves the range, comparing with \<open><\<close> only.
\<close>

function bisect_loop :: "version list \<Rightarrow> version \<Rightarrow> nat \<Rightarrow> nat \<Rightarrow> nat" where
  "bisect_loop a x lo hi =
     (if lo < hi
      then (let mid = (lo + hi) div 2
            in if a ! mid < x then bisect_loop a x (mid + 1) hi else bisect_loop a x lo mid)
      else lo)"
  by pat_completeness auto
termination
  by (relation "measure (\<lambda>(a, x, lo, hi). hi - lo)") auto

declare bisect_loop.simps [simp del]

definition bisect_left :: "version list \<Rightarrow> version \<Rightarrow> nat" where
  "bisect_left a x = bisect_loop a x 0 (length a)"

subsection \<open>\<open>find_closest_version_tag\<close>\<close>

text \<open>
  The loop that parses every tag: a tag whose name is missing or does not parse is
  skipped (\<open>except Exception: continue\<close>); a later tag with the same version replaces
  the earlier one in the dictionary.
\<close>

fun collect_parsed ::
  "tag list \<Rightarrow> version list \<times> (version \<rightharpoonup> string) \<Rightarrow> version list \<times> (version \<rightharpoonup> string)" where
  "collect_parsed [] st = st"
| "collect_parsed (t # ts) (parsed_tags, version_to_tag_map) =
     (case getitem t ''tag_name'' of
        Inl e \<Rightarrow> collect_parsed ts (parsed_tags, version_to_tag_map)
      | Inr name \<Rightarrow>
          (case parse_version name of
             Inl e \<Rightarrow> collect_parsed ts (parsed_tags, version_to_tag_map)
           | Inr version_tuple \<Rightarrow>
               collect_parsed ts
                 (parsed_tags @ [version_tuple], version_to_tag_map(version_tuple \<mapsto> name))))"

definition find_closest_version_tag :: "tag list \<Rightarrow> string \<Rightarrow> error + string" where
  "find_closest_version_tag all_tags input_tag =
     (let normalized = (if startswith input_tag ''v'' then input_tag else ''v'' @ input_tag);
          (collected, version_to_tag_map) = collect_parsed all_tags ([], Map.empty);
          parsed_tags = sort collected
      in case parse_version normalized of
           Inl e \<Rightarrow> Inl e
         | Inr target_version \<Rightarrow>
             if version_to_tag_map target_version \<noteq> None
             then lookup version_to_tag_map target_version
             else (let index = bisect_left parsed_tags target_version
                   in if index > 0 then lookup version_to_tag_map (parsed_tags ! (index - 1))
                      else if index < length parsed_tags
                      then lookup version_to_tag_map (parsed_tags ! index)
                      else Inl Exit))"

subsection \<open>\<open>sorted(..., key=parse_version of the tag name, reverse=True)\<close>\<close>

text \<open>
  \<open>sorted\<close> first computes the key of every element, in order, and the first key that
  raises ends the call with that exception.  The sort is stable, and \<open>reverse=True\<close>
  keeps elements of equal keys in their original order: the list is reversed, sorted
  ascending and stably, and reversed again.
\<close>

fun version_keys :: "tag list \<Rightarrow> error + (version \<times> tag) list" where
  "version_keys [] = Inr []"
| "version_keys (t # ts) =
     (case getitem t ''tag_name'' of
        Inl e \<Rightarrow> Inl e
      | Inr name \<Rightarrow>
          (case parse_version name of
             Inl e \<Rightarrow> Inl e
           | Inr k \<Rightarrow> (case version_keys ts of Inl e \<Rightarrow> Inl e | Inr ks \<Rightarrow> Inr ((k, t) # ks))))"

definition sorted_by_version_reverse :: "tag list \<Rightarrow> error + tag list" where
  "sorted_by_version_reverse ts =
     (case version_keys ts of
        Inl e \<Rightarrow> Inl e
      | Inr ks \<Rightarrow> Inr (map snd (rev (sort_key fst (rev ks)))))"

subsection \<open>\<open>filter_and_sort_tags\<close>\<close>

text \<open>
  The filter is the regular expression \<open>v?\<close> followed by the escaped prefix in which
  every \<open>*\<close> has become \<open>.*\<close>, compiled with \<open>re.IGNORECASE\<close> and applied with \<open>search\<close>.
  After \<open>re.escape\<close> every character of the prefix stands for itself, except \<open>*\<close>;
  \<open>.\<close> matches any character but the newline.  \<open>char_lower\<close> folds the letters below
  code point 256 to lower case.
\<close>

definition char_lower :: "char \<Rightarrow> char" where
  "char_lower c =
     (let n = (of_char c :: nat)
      in if (65 \<le> n \<and> n \<le> 90) \<or> (192 \<le> n \<and> n \<le> 222 \<and> n \<noteq> 215) then char_of (n + 32) else c)"

text \<open>The pattern, from its first character on, matches a prefix of the text.\<close>

fun glob_match :: "string \<Rightarrow> string \<Rightarrow> bool" where
  "glob_match [] s = True"
| "glob_match (p # ps) [] = (p = CHR ''*'' \<and> glob_match ps [])"
| "glob_match (p # ps) (c # cs) =
     (if p = CHR ''*''
      then glob_match ps (c # cs) \<or> (c \<noteq> CHR 0x0A \<and> glob_match (p # ps) cs)
      else char_lower p = char_lower c \<and> glob_match ps cs)"

text \<open>\<open>v?\<close> and then the pattern, at the head of the text.\<close>

definition regex_match_here :: "string \<Rightarrow> string \<Rightarrow> bool" where
  "regex_match_here pat s =
     (glob_match pat s \<or>
      (case s of [] \<Rightarrow> False | c # cs \<Rightarrow> char_lower c = CHR ''v'' \<and> glob_match pat cs))"

text \<open>\<open>regex.search\<close>: a match that begins anywhere in the text.\<close>

fun regex_search :: "string \<Rightarrow> string \<Rightarrow> bool" where
  "regex_search pat [] = regex_match_here pat []"
| "regex_search pat (c # cs) = (regex_match_here pat (c # cs) \<or> regex_search pat cs)"

text \<open>\<open>[t for t in filtered if regex.search(t["tag_name"])]\<close>.\<close>

fun filter_search :: "string \<Rightarrow> tag list \<Rightarrow> error + tag list" where
  "filter_search pat [] = Inr []"
| "filter_search pat (t # ts) =
     (case getitem t ''tag_name'' of
        Inl e \<Rightarrow> Inl e
      | Inr name \<Rightarrow>
          (case filter_search pat ts of
             Inl e \<Rightarrow> Inl e
           | Inr rest \<Rightarrow> Inr (if regex_search pat name then t # rest else rest)))"

definition filter_and_sort_tags :: "tag list \<Rightarrow> string option \<Rightarrow> error + tag list" where
  "filter_and_sort_tags tags prefix =
     (let filtered = filter (\<lambda>t. truthy (map_of t ''tag_name'')) tags
      in if truthy prefix
         then (case prefix of
                 None \<Rightarrow> sorted_by_version_reverse filtered
               | Some pre \<Rightarrow>
                   (let norm_prefix = (if startswith pre ''v'' then drop 1 pre else pre)
                    in case filter_search norm_prefix filtered of
                         Inl e \<Rightarrow> Inl e
                       | Inr filtered' \<Rightarrow> sorted_by_version_reverse filtered'))
         else sorted_by_version_reverse filtered)"

subsection \<open>\<open>resolve_tag\<close>\<close>

text \<open>\<open>[t["tag_name"] for t in tags]\<close>: a tag without the key raises \<open>KeyError\<close>.\<close>

fun tag_names :: "tag list \<Rightarrow> error + string list" where
  "tag_names [] = Inr []"
| "tag_names (t # ts) =
     (case getitem t ''tag_name'' of
        Inl e \<Rightarrow> Inl e
      | Inr name \<Rightarrow> (case tag_names ts of Inl e \<Rightarrow> Inl e | Inr names \<Rightarrow> Inr (name # names)))"

text \<open>
  The result is the returned value (\<open>None\<close> when no tag was asked for) and whether the
  notice "Exact tag not found. Using nearest match" was printed.
\<close>

definition resolve_tag :: "string option \<Rightarrow> tag list \<Rightarrow> error + (string option \<times> bool)" where
  "resolve_tag tag_input tags =
     (case tag_input of
        None \<Rightarrow> Inr (None, False)
      | Some inp \<Rightarrow>
          if inp = [] then Inr (None, False)
          else (case tag_names tags of
                  Inl e \<Rightarrow> Inl e
                | Inr names \<Rightarrow>
                    (case filter (\<lambda>n. n = inp) names of
                       m # _ \<Rightarrow> Inr (Some m, False)
                     | [] \<Rightarrow>
                         (let prefix_matches =
                                map fst (filter (\<lambda>(t, n). startswith n inp) (zip tags names))
                          in if prefix_matches \<noteq> []
                             then (case sorted_by_version_reverse prefix_matches of
                                     Inl e \<Rightarrow> Inl e
                                   | Inr [] \<Rightarrow> Inl IndexError
                                   | Inr (first # _) \<Rightarrow>
                                       (case getitem first ''tag_name'' of
                                          Inl e \<Rightarrow> Inl e
                                        | Inr chosen \<Rightarrow> Inr (Some chosen, True)))
                             else Inl Exit))))"

subsection \<open>\<open>install_dotnet\<close>: the choice of the tag\<close>

text \<open>
  The loop that keeps the versions of the requested major version; as in
  \<open>find_closest_version_tag\<close>, a tag that raises is skipped.
\<close>

fun collect_major ::
  "version \<Rightarrow> tag list \<Rightarrow> version list \<times> (version \<rightharpoonup> string) \<Rightarrow> version list \<times> (version \<rightharpoonup> string)" where
  "collect_major requested_version [] st = st"
| "collect_major requested_version (t # ts) (ibm_parsed, version_to_tag_map) =
     (case getitem t ''tag_name'' of
        Inl e \<Rightarrow> collect_major requested_version ts (ibm_parsed, version_to_tag_map)
      | Inr name \<Rightarrow>
          (case parse_version name of
             Inl e \<Rightarrow> collect_major requested_version ts (ibm_parsed, version_to_tag_map)
           | Inr v \<Rightarrow>
               if major v = major requested_version
               then collect_major requested_version ts
                      (ibm_parsed @ [v], version_to_tag_map(v \<mapsto> name))
               else collect_major requested_version ts (ibm_parsed, version_to_tag_map)))"

text \<open>
  The inner loop \<open>for direction in [1, -1]\<close> at one offset.  The result is the value of
  \<open>chosen\<close> when the loop ends: \<open>Some name\<close> after the \<open>break\<close>, \<open>None\<close> otherwise.  An
  exception of \<open>is_version_in_nuget\<close> is not caught and ends the search.
\<close>

fun try_directions ::
  "version list \<Rightarrow> (version \<rightharpoonup> string) \<Rightarrow> string set \<Rightarrow> version \<Rightarrow> nat \<Rightarrow> nat \<Rightarrow> int list
     \<Rightarrow> error + string option" where
  "try_directions ibm_parsed version_to_tag_map nuget_set requested_version idx offset [] = Inr None"
| "try_directions ibm_parsed version_to_tag_map nuget_set requested_version idx offset (direction # ds) =
     (let i = int idx + direction * int offset
      in if i < 0 \<or> i \<ge> int (length ibm_parsed)
         then try_directions ibm_parsed version_to_tag_map nuget_set requested_version idx offset ds
         else (let candidate = ibm_parsed ! nat i
               in if major candidate \<noteq> major requested_version
                  then try_directions ibm_parsed version_to_tag_map nuget_set requested_version idx offset ds
                  else (case is_version_in_nuget nuget_set candidate of
                          Inl e \<Rightarrow> Inl e
                        | Inr True \<Rightarrow>
                            (case lookup version_to_tag_map candidate of
                               Inl e \<Rightarrow> Inl e
                             | Inr name \<Rightarrow> Inr (Some name))
                        | Inr False \<Rightarrow>
                            try_directions ibm_parsed version_to_tag_map nuget_set requested_version
                              idx offset ds)))"

text \<open>
  The outer loop \<open>for offset in range(len(ibm_parsed))\<close>; it stops when \<open>chosen\<close> is
  true.
\<close>

fun search_offsets ::
  "version list \<Rightarrow> (version \<rightharpoonup> string) \<Rightarrow> string set \<Rightarrow> version \<Rightarrow> nat \<Rightarrow> nat list
     \<Rightarrow> error + string option" where
  "search_offsets ibm_parsed version_to_tag_map nuget_set requested_version idx [] = Inr None"
| "search_offsets ibm_parsed version_to_tag_map nuget_set requested_version idx (offset # os) =
     (case try_directions ibm_parsed version_to_tag_map nuget_set requested_version idx offset [1, - 1] of
        Inl e \<Rightarrow> Inl e
      | Inr chosen \<Rightarrow>
          if truthy chosen then Inr chosen
          else search_offsets ibm_parsed version_to_tag_map nuget_set requested_version idx os)"

text \<open>The exact match check before the search.\<close>

definition exact_match ::
  "version list \<Rightarrow> (version \<rightharpoonup> string) \<Rightarrow> string set \<Rightarrow> version \<Rightarrow> nat \<Rightarrow> error + string option" where
  "exact_match ibm_parsed version_to_tag_map nuget_set requested_version idx =
     (if idx < length ibm_parsed \<and> ibm_parsed ! idx = requested_version
      then (case is_version_in_nuget nuget_set requested_version of
              Inl e \<Rightarrow> Inl e
            | Inr True \<Rightarrow>
                (case lookup version_to_tag_map requested_version of
                   Inl e \<Rightarrow> Inl e
                 | Inr name \<Rightarrow> Inr (Some name))
            | Inr False \<Rightarrow> Inr None)
      else Inr None)"

text \<open>
  The fallback from \<open>if not chosen:\<close> on: the search over the offsets, and the exit when
  it chose nothing.
\<close>

definition fallback_search ::
  "version list \<Rightarrow> (version \<rightharpoonup> string) \<Rightarrow> string set \<Rightarrow> version \<Rightarrow> nat \<Rightarrow> error + (string \<times> bool)" where
  "fallback_search ibm_parsed version_to_tag_map nuget_set requested_version idx =
     (case search_offsets ibm_parsed version_to_tag_map nuget_set requested_version idx
             [0 ..< length ibm_parsed] of
        Inl e \<Rightarrow> Inl e
      | Inr None \<Rightarrow> Inl Exit
      | Inr (Some name) \<Rightarrow> if name \<noteq> [] then Inr (name, True) else Inl Exit)"

text \<open>
  \<open>install_dotnet\<close> with a tag given (\<open>--tag\<close>), from the parsing of the request to
  \<open>selected_tag = chosen\<close>.  The catalog \<open>all_tags\<close> and the registry's versions
  \<open>nuget_versions\<close> are what the two network calls returned.  The result is the chosen
  tag and whether the notice "Using nearest IBM version" was printed; both ways out
  through \<open>typer.Exit(1)\<close> are \<open>Exit\<close>.
\<close>

definition install_dotnet :: "string \<Rightarrow> tag list \<Rightarrow> string set \<Rightarrow> error + (string \<times> bool)" where
  "install_dotnet tag all_tags nuget_versions =
     (case parse_version (lstrip ''v'' tag) of
        Inl e \<Rightarrow> Inl e
      | Inr requested_version \<Rightarrow>
          (let (collected, version_to_tag_map) = collect_major requested_version all_tags ([], Map.empty)
           in if collected = [] then Inl Exit
              else (let ibm_parsed = sort collected;
                        idx = bisect_left ibm_parsed requested_version
                    in case exact_match ibm_parsed version_to_tag_map nuget_versions requested_version idx of
                         Inl e \<Rightarrow> Inl e
                       | Inr (Some name) \<Rightarrow>
                           if name \<noteq> [] then Inr (name, False)
                           else fallback_search ibm_parsed version_to_tag_map nuget_versions requested_version idx
                       | Inr None \<Rightarrow>
                           fallback_search ibm_parsed version_to_tag_map nuget_versions requested_version idx)))"

section \<open>Notions of the design document\<close>

text \<open>The stage name that the design document attaches to a priority from 0 to 3.\<close>

definition stage_name_of :: "int \<Rightarrow> string" where
  "stage_name_of p = (if p = 0 then ''alpha'' else if p = 1 then ''preview'' else if p = 2 then ''rc'' else ''rtm'')"

text \<open>
  The insertion position of a target in an ascending list: the number of elements that
  are smaller than the target.
\<close>

definition insertion_index :: "version list \<Rightarrow> version \<Rightarrow> nat" where
  "insertion_index vs x = length (filter (\<lambda>v. v < x) vs)"

text \<open>
  The catalog read as pairs of a version and a tag name: one pair for every tag whose name
  is there and parses, in the order of the catalog.
\<close>

definition parsed_pairs :: "tag list \<Rightarrow> (version \<times> string) list" where
  "parsed_pairs tags =
     concat (map (\<lambda>t. case getitem t ''tag_name'' of
                         Inl e \<Rightarrow> []
                       | Inr name \<Rightarrow> (case parse_version name of Inl e \<Rightarrow> [] | Inr v \<Rightarrow> [(v, name)]))
                 tags)"

text \<open>
  \<open>findNearestByVersion\<close> as the design document words it: the tag of the target when the
  target is among the parsed versions, else the tag just before the insertion position,
  else the tag at it, else a failure.  The tag of a version is the last one of the
  catalog that parses to it.
\<close>

definition nearest_by_version :: "(version \<times> string) list \<Rightarrow> version \<Rightarrow> error + string" where
  "nearest_by_version pairs target =
     (let vs = sort (map fst pairs);
          k = insertion_index vs target
      in if target \<in> set vs then lookup (map_of (rev pairs)) target
         else if 0 < k then lookup (map_of (rev pairs)) (vs ! (k - 1))
         else if k < length vs then lookup (map_of (rev pairs)) (vs ! k)
         else Inl Exit)"

text \<open>
  The pairs of the catalog whose version has the major version of the request: the
  candidates of the reconciliation.
\<close>

definition major_pairs :: "version \<Rightarrow> tag list \<Rightarrow> (version \<times> string) list" where
  "major_pairs requested tags = filter (\<lambda>p. major (fst p) = major requested) (parsed_pairs tags)"

text \<open>
  A number in canonical decimal writing: digits only, no leading zero unless the number
  is zero itself, and no more digits than \<open>int\<close> accepts.
\<close>

definition canonical_number :: "string \<Rightarrow> bool" where
  "canonical_number d =
     ((d = ''0'' \<or> (d \<noteq> [] \<and> list_all is_digit d \<and> hd d \<noteq> CHR ''0''))
      \<and> int (length d) \<le> int_max_str_digits)"

text \<open>
  A string of the full pattern: \<open>major.minor.patch-stage.number.build\<close>, the build being
  numbers joined by dots.
\<close>

definition full_pattern_string ::
  "string \<Rightarrow> string \<Rightarrow> string \<Rightarrow> string \<Rightarrow> string \<Rightarrow> string list \<Rightarrow> string" where
  "full_pattern_string A B C stage N bs =
     A @ ''.'' @ B @ ''.'' @ C @ ''-'' @ stage @ ''.'' @ N @ ''.'' @ join ''.'' bs"

text \<open>
  The candidates of the reconciliation in ascending order: the list that
  \<open>install_dotnet\<close> sorts and searches.
\<close>

definition candidates :: "version \<Rightarrow> tag list \<Rightarrow> version list" where
  "candidates requested tags = sort (map fst (major_pairs requested tags))"

text \<open>
  The search passes over an index: it is outside the list, or the normalized key of the
  candidate there is not in the registry.
\<close>

definition nuget_miss :: "string set \<Rightarrow> version list \<Rightarrow> int \<Rightarrow> bool" where
  "nuget_miss nuget_set vs i =
     (i < 0 \<or> int (length vs) \<le> i \<or> is_version_in_nuget nuget_set (vs ! nat i) = Inr False)"

section \<open>Rendering and the normalized key\<close>




text \<open>
  Claim C10 as stated speaks of every version.  The version that \<open>parse_version\<close> gives
  for \<open>v9.0.100-beta.1\<close> has no normalized key: the computation raises \<open>KeyError\<close>.
\<close>

theorem normalized_key_unknown_stage_counterexample:
  "parse_version ''v9.0.100-beta.1'' = Inr (Version 9 0 100 (- 1) 0 [])
   \<and> normalized_version_for_nuget (Version 9 0 100 (- 1) 0 []) = Inl KeyError"
  by code_simp

text \<open>
  Claim C10, amended.  For every version whose \<open>stage_priority\<close> is not negative, the
  normalized key is \<open>major.minor.0\<close>, followed, when the priority is below 4, by
  \<open>-stage.number.build\<close> with the build joined by dots; the key of
  \<open>Version(9, 0, 100, 1, 7, (25351, 106))\<close> is \<open>9.0.0-preview.7.25351.106\<close>.
\<close>

theorem normalized_key_format:
  "(0 \<le> stage_priority v \<longrightarrow>
      normalized_version_for_nuget v =
        Inr (py_str (major v) @ ''.'' @ py_str (minor v) @ ''.0'' @
             (if stage_priority v < 4
              then ''-'' @ stage_name_of (stage_priority v) @ ''.'' @ py_str (stage_number v) @ ''.'' @
                   join ''.'' (map py_str (build v))
              else '''')))
   \<and> normalized_version_for_nuget (Version 9 0 100 1 7 [25351, 106]) = Inr ''9.0.0-preview.7.25351.106''"
proof -
  have example: "normalized_version_for_nuget (Version 9 0 100 1 7 [25351, 106]) = Inr ''9.0.0-preview.7.25351.106''"
    by code_simp
  have cases: "stage_priority v = 0 \<or> stage_priority v = 1 \<or> stage_priority v = 2 \<or> stage_priority v = 3
      \<or> 4 \<le> stage_priority v" if "0 \<le> stage_priority v"
    using that by arith
  have general: "normalized_version_for_nuget v =
        Inr (py_str (major v) @ ''.'' @ py_str (minor v) @ ''.0'' @
             (if stage_priority v < 4
              then ''-'' @ stage_name_of (stage_priority v) @ ''.'' @ py_str (stage_number v) @ ''.'' @
                   join ''.'' (map py_str (build v))
              else ''''))" if "0 \<le> stage_priority v"
    using cases [OF that]
    by (auto simp: normalized_version_for_nuget_def stage_names_def stage_name_of_def)
  show ?thesis using example general by blast
qed

theorem normalized_key_format_witness:
  "0 \<le> stage_priority (Version 8 0 3 3 0 [24503, 15])
   \<and> normalized_version_for_nuget (Version 8 0 3 3 0 [24503, 15]) = Inr ''8.0.0-rtm.0.24503.15''"
proof -
  have h: "0 \<le> stage_priority (Version 8 0 3 3 0 [24503, 15])" by simp
  have e: "Inr (py_str (major (Version 8 0 3 3 0 [24503, 15])) @ ''.'' @ py_str (minor (Version 8 0 3 3 0 [24503, 15])) @ ''.0'' @
             (if stage_priority (Version 8 0 3 3 0 [24503, 15]) < 4
              then ''-'' @ stage_name_of (stage_priority (Version 8 0 3 3 0 [24503, 15])) @ ''.'' @ py_str (stage_number (Version 8 0 3 3 0 [24503, 15])) @ ''.'' @
                   join ''.'' (map py_str (build (Version 8 0 3 3 0 [24503, 15])))
              else '''')) = (Inr ''8.0.0-rtm.0.24503.15'' :: error + string)"
    by code_simp
  from normalized_key_format [of "Version 8 0 3 3 0 [24503, 15]"] h
  have "normalized_version_for_nuget (Version 8 0 3 3 0 [24503, 15]) = Inr (py_str (major (Version 8 0 3 3 0 [24503, 15])) @ ''.'' @ py_str (minor (Version 8 0 3 3 0 [24503, 15])) @ ''.0'' @
             (if stage_priority (Version 8 0 3 3 0 [24503, 15]) < 4
              then ''-'' @ stage_name_of (stage_priority (Version 8 0 3 3 0 [24503, 15])) @ ''.'' @ py_str (stage_number (Version 8 0 3 3 0 [24503, 15])) @ ''.'' @
                   join ''.'' (map py_str (build (Version 8 0 3 3 0 [24503, 15])))
              else ''''))"
    by blast
  with e h show ?thesis by (simp only:)
qed

section \<open>The order of versions: properties\<close>

lemma version_lt_trans: "version_lt a b \<Longrightarrow> version_lt b c \<Longrightarrow> version_lt a c"
  unfolding version_lt_iff_key by (rule less_trans)

lemma version_lt_trichotomy: "version_lt a b \<or> a = b \<or> version_lt b a"
  unfolding version_lt_iff_key using version_key_inj [of a b] by (meson linorder_less_linear)

lemma version_lt_asym: "\<not> (version_lt a b \<and> version_lt b a)"
  unfolding version_lt_iff_key by auto

lemma version_lt_irrefl: "\<not> version_lt a a"
  unfolding version_lt_iff_key by simp

text \<open>
  Claim C7.  The order of versions is a strict total order on all versions (so on those
  that \<open>parse_version\<close> gives, the ones of priority \<open>-1\<close> and of empty build among
  them): of \<open>a < b\<close>, \<open>a = b\<close>, \<open>b < a\<close> exactly one holds, \<open><\<close> is transitive, and
  \<open><\<close> is the lexicographic order of the six fields, the build compared as a sequence
  of which a strict prefix is the smaller (the last conjunct).  The conjunct before it
  says that the order used by \<open>sort\<close> and by the bisection is this one.
\<close>

theorem version_order_total:
  "(version_lt a b \<or> a = b \<or> version_lt b a)
   \<and> \<not> (version_lt a b \<and> a = b)
   \<and> \<not> (a = b \<and> version_lt b a)
   \<and> \<not> (version_lt a b \<and> version_lt b a)
   \<and> (version_lt a b \<and> version_lt b c \<longrightarrow> version_lt a c)
   \<and> (version_lt a b \<longleftrightarrow> lexicographic_lt a b)
   \<and> (a < b \<longleftrightarrow> version_lt a b)
   \<and> tuple_lt xs (xs @ y # ys)"
proof -
  have "\<not> (version_lt a b \<and> a = b)" "\<not> (a = b \<and> version_lt b a)"
    using version_lt_irrefl by auto
  moreover have "tuple_lt xs (xs @ y # ys)"
    by (induction xs) simp_all
  moreover have "version_lt a b \<longleftrightarrow> lexicographic_lt a b"
    by (simp add: lexicographic_lt_def version_lt_iff_key)
  moreover have "a < b \<longleftrightarrow> version_lt a b"
    by (simp add: less_version_def)
  ultimately show ?thesis
    using version_lt_trichotomy [of a b] version_lt_asym [of a b] version_lt_trans [of a b c]
    by blast
qed

theorem version_order_total_witness:
  "version_lt (Version 9 0 100 (- 1) 0 []) (Version 9 0 100 1 7 [25351])
   \<and> version_lt (Version 9 0 100 1 7 [25351]) (Version 9 0 100 1 7 [25351, 106])
   \<and> version_lt (Version 9 0 100 (- 1) 0 []) (Version 9 0 100 1 7 [25351, 106])
   \<and> lexicographic_lt (Version 9 0 100 (- 1) 0 []) (Version 9 0 100 1 7 [25351])"
  using version_order_total [of "Version 9 0 100 (- 1) 0 []" "Version 9 0 100 1 7 [25351]"
      "Version 9 0 100 1 7 [25351, 106]"]
  by (simp add: version_lt_def)

section \<open>Stage precedence\<close>

lemma stage_priority_of_values:
  "stage_priority_of (Some ''unknown'') = - 1"
  "stage_priority_of (Some ''alpha'') = 0"
  "stage_priority_of (Some ''preview'') = 1"
  "stage_priority_of (Some ''rc'') = 2"
  "stage_priority_of (Some ''rtm'') = 3"
  "stage_priority_of None = 4"
  by (simp_all add: stage_priority_of_def stage_priority_map_def)

text \<open>
  Claim C8.  For two versions of equal major, minor and patch, the stages rank strictly
  alpha < preview < rc < rtm < stable (no suffix), and a version of an unknown suffix is
  strictly below every alpha version; only the priorities decide, whatever the stage
  numbers and the builds are.
\<close>

theorem stage_precedence:
  assumes "major a = major b" and "minor a = minor b" and "patch a = patch b"
  shows "(stage_priority a = stage_priority_of (Some ''alpha'')
            \<and> stage_priority b = stage_priority_of (Some ''preview'') \<longrightarrow> version_lt a b)
       \<and> (stage_priority a = stage_priority_of (Some ''preview'')
            \<and> stage_priority b = stage_priority_of (Some ''rc'') \<longrightarrow> version_lt a b)
       \<and> (stage_priority a = stage_priority_of (Some ''rc'')
            \<and> stage_priority b = stage_priority_of (Some ''rtm'') \<longrightarrow> version_lt a b)
       \<and> (stage_priority a = stage_priority_of (Some ''rtm'')
            \<and> stage_priority b = stage_priority_of None \<longrightarrow> version_lt a b)
       \<and> (stage_priority a = stage_priority_of (Some ''unknown'')
            \<and> stage_priority b = stage_priority_of (Some ''alpha'') \<longrightarrow> version_lt a b)
       \<and> (stage_priority a < stage_priority b \<longrightarrow> version_lt a b \<and> \<not> version_lt b a)"
  using assms by (simp add: stage_priority_of_values version_lt_def)

theorem stage_precedence_witness:
  "parse_version ''9.0.100-beta.9.9'' = Inr (Version 9 0 100 (- 1) 0 [])
   \<and> parse_version ''9.0.100-alpha.1.2'' = Inr (Version 9 0 100 0 1 [2])
   \<and> parse_version ''9.0.100-preview.1.2'' = Inr (Version 9 0 100 1 1 [2])
   \<and> parse_version ''9.0.100-rc.1.2'' = Inr (Version 9 0 100 2 1 [2])
   \<and> parse_version ''9.0.100-rtm.1.2'' = Inr (Version 9 0 100 3 1 [2])
   \<and> parse_version ''9.0.100'' = Inr (Version 9 0 100 4 0 [])
   \<and> version_lt (Version 9 0 100 (- 1) 0 []) (Version 9 0 100 0 1 [2])
   \<and> version_lt (Version 9 0 100 0 1 [2]) (Version 9 0 100 1 1 [2])
   \<and> version_lt (Version 9 0 100 1 1 [2]) (Version 9 0 100 2 1 [2])
   \<and> version_lt (Version 9 0 100 2 1 [2]) (Version 9 0 100 3 1 [2])
   \<and> version_lt (Version 9 0 100 3 1 [2]) (Version 9 0 100 4 0 [])"
proof -
  have parsed: "parse_version ''9.0.100-beta.9.9'' = Inr (Version 9 0 100 (- 1) 0 [])"
    "parse_version ''9.0.100-alpha.1.2'' = Inr (Version 9 0 100 0 1 [2])"
    "parse_version ''9.0.100-preview.1.2'' = Inr (Version 9 0 100 1 1 [2])"
    "parse_version ''9.0.100-rc.1.2'' = Inr (Version 9 0 100 2 1 [2])"
    "parse_version ''9.0.100-rtm.1.2'' = Inr (Version 9 0 100 3 1 [2])"
    "parse_version ''9.0.100'' = Inr (Version 9 0 100 4 0 [])"
    by code_simp+
  show ?thesis
    using parsed
      stage_precedence [of "Version 9 0 100 (- 1) 0 []" "Version 9 0 100 0 1 [2]"]
      stage_precedence [of "Version 9 0 100 0 1 [2]" "Version 9 0 100 1 1 [2]"]
      stage_precedence [of "Version 9 0 100 1 1 [2]" "Version 9 0 100 2 1 [2]"]
      stage_precedence [of "Version 9 0 100 2 1 [2]" "Version 9 0 100 3 1 [2]"]
      stage_precedence [of "Version 9 0 100 3 1 [2]" "Version 9 0 100 4 0 []"]
    by (simp add: stage_priority_of_values)
qed

section \<open>Sorting a catalog with a tag that does not parse\<close>

text \<open>
  Claim C4 says that \<open>filter_and_sort_tags\<close> and the sort of the prefix matches in
  \<open>resolve_tag\<close> leave out a tag whose name does not parse.  They do not: the key
  function of \<open>sorted\<close> is \<open>parse_version\<close> with no handler around it, so one such tag
  ends the whole call with \<open>ValueError\<close>.  \<open>find_closest_version_tag\<close> (and the loop of
  \<open>install_dotnet\<close>) catch the exception and skip the tag, as the last conjunct shows on
  the same catalog.
\<close>

theorem sort_aborts_on_unparseable_tag:
  "parse_version ''latest'' = Inl ValueError
   \<and> filter_and_sort_tags [release ''v9.0.100'', release ''latest'', release ''v9.0.101''] None
       = Inl ValueError
   \<and> filter_and_sort_tags [release ''v9.0.100'', release ''v9.x'', release ''v8.0.1''] (Some ''9'')
       = Inl ValueError
   \<and> resolve_tag (Some ''lat'') [release ''v9.0.100'', release ''latest''] = Inl ValueError
   \<and> find_closest_version_tag [release ''v9.0.100'', release ''latest'', release ''v9.0.101''] ''9.0.101''
       = Inr ''v9.0.101''"
  by code_simp

section \<open>The search of \<open>install_dotnet\<close> on concrete catalogs\<close>

text \<open>
  Claim C2 says that the search finds a compatible tag whenever there is one.  When the
  request is above every version of the catalog, the insertion index is the length of the
  list, and the offsets \<open>range(len(ibm_parsed))\<close> stop one short of the distance to the
  first element: the tag at index 0 is never tried.  Here \<open>v9.0.100\<close> has the requested
  major version and its normalized key \<open>9.0.0\<close> is in the registry, and the call leaves
  through \<open>typer.Exit(1)\<close>.  The last conjunct is the same catalog and registry with a
  request below the tag: the tag is found.
\<close>

theorem search_misses_first_tag:
  "parse_version ''v9.0.100'' = Inr (Version 9 0 100 4 0 [])
   \<and> normalized_version_for_nuget (Version 9 0 100 4 0 []) = Inr ''9.0.0''
   \<and> install_dotnet ''9.0.200'' [release ''v9.0.100''] {''9.0.0''} = Inl Exit
   \<and> install_dotnet ''9.0.200'' [release ''v9.0.100'', release ''v9.0.150-rc.1.5''] {''9.0.0''} = Inl Exit
   \<and> install_dotnet ''9.0.50'' [release ''v9.0.100''] {''9.0.0''} = Inr (''v9.0.100'', True)"
  by code_simp

text \<open>
  Claim C1 as stated: the catalog \<open>9.0.100\<close>, \<open>9.0.101\<close>, \<open>9.0.102\<close>, the registry holding
  only the normalized key of \<open>9.0.101\<close>, the request \<open>9.0.100\<close>.  The normalized key
  forces the patch to zero, so the key of \<open>9.0.101\<close> is \<open>9.0.0\<close>, which is the key of the
  request too: the exact match is taken, and no notice is printed.
\<close>

theorem nearest_example_counterexample:
  "normalized_version_for_nuget (Version 9 0 101 4 0 []) = Inr ''9.0.0''
   \<and> install_dotnet ''9.0.100'' [release ''v9.0.100'', release ''v9.0.101'', release ''v9.0.102'']
        {''9.0.0''} = Inr (''v9.0.100'', False)"
  by code_simp

section \<open>Bisection and \<open>find_closest_version_tag\<close>\<close>

text \<open>
  The bisection loop keeps the elements before \<open>lo\<close> below the target and those from
  \<open>hi\<close> on not below it; on a sorted list it ends at the insertion position.
\<close>

lemma bisect_loop_bounds:
  assumes "sorted a" and "lo \<le> hi" and "hi \<le> length a"
    and "\<forall>i<lo. a ! i < x"
    and "\<forall>i. hi \<le> i \<and> i < length a \<longrightarrow> \<not> a ! i < x"
  shows "bisect_loop a x lo hi \<le> length a
       \<and> (\<forall>i<bisect_loop a x lo hi. a ! i < x)
       \<and> (\<forall>i. bisect_loop a x lo hi \<le> i \<and> i < length a \<longrightarrow> \<not> a ! i < x)"
  using assms
proof (induction a x lo hi rule: bisect_loop.induct)
  case (1 a x lo hi)
  show ?case
  proof (cases "lo < hi")
    case False
    have val: "bisect_loop a x lo hi = lo"
      using False by (simp add: bisect_loop.simps [of a x lo hi])
    from False "1.prems" have "lo = hi" by simp
    with "1.prems" show ?thesis
      unfolding val by auto
  next
    case True
    define mid where "mid = (lo + hi) div 2"
    have mid: "lo \<le> mid" "mid < hi" "mid < length a"
      using True "1.prems" by (auto simp: mid_def)
    show ?thesis
    proof (cases "a ! mid < x")
      case less: True
      have below: "\<forall>i<mid + 1. a ! i < x"
      proof (intro allI impI)
        fix i assume "i < mid + 1"
        then have "a ! i \<le> a ! mid"
          using \<open>sorted a\<close> mid by (simp add: sorted_nth_mono)
        with less show "a ! i < x" by simp
      qed
      have step: "bisect_loop a x lo hi = bisect_loop a x (mid + 1) hi"
        using True less by (simp add: bisect_loop.simps [of a x lo hi] mid_def Let_def)
      have le: "mid + 1 \<le> hi" using mid by simp
      have "bisect_loop a x (mid + 1) hi \<le> length a
       \<and> (\<forall>i<bisect_loop a x (mid + 1) hi. a ! i < x)
       \<and> (\<forall>i. bisect_loop a x (mid + 1) hi \<le> i \<and> i < length a \<longrightarrow> \<not> a ! i < x)"
        by (rule "1.IH"(1) [OF True mid_def less \<open>sorted a\<close> le \<open>hi \<le> length a\<close> below "1.prems"(5)])
      then show ?thesis unfolding step .
    next
      case notless: False
      have above: "\<forall>i. mid \<le> i \<and> i < length a \<longrightarrow> \<not> a ! i < x"
      proof (intro allI impI)
        fix i assume "mid \<le> i \<and> i < length a"
        then have "a ! mid \<le> a ! i"
          using \<open>sorted a\<close> by (simp add: sorted_nth_mono)
        with notless show "\<not> a ! i < x" by auto
      qed
      have step: "bisect_loop a x lo hi = bisect_loop a x lo mid"
        using True notless by (simp add: bisect_loop.simps [of a x lo hi] mid_def Let_def)
      have le: "mid \<le> length a" using mid by simp
      have "bisect_loop a x lo mid \<le> length a
       \<and> (\<forall>i<bisect_loop a x lo mid. a ! i < x)
       \<and> (\<forall>i. bisect_loop a x lo mid \<le> i \<and> i < length a \<longrightarrow> \<not> a ! i < x)"
        by (rule "1.IH"(2) [OF True mid_def notless \<open>sorted a\<close> \<open>lo \<le> mid\<close> le "1.prems"(4) above])
      then show ?thesis unfolding step .
    qed
  qed
qed

lemma bisect_left_bounds:
  assumes "sorted a"
  shows "bisect_left a x \<le> length a"
    and "\<And>i. i < bisect_left a x \<Longrightarrow> a ! i < x"
    and "\<And>i. bisect_left a x \<le> i \<Longrightarrow> i < length a \<Longrightarrow> \<not> a ! i < x"
proof -
  have all: "bisect_loop a x 0 (length a) \<le> length a
       \<and> (\<forall>i<bisect_loop a x 0 (length a). a ! i < x)
       \<and> (\<forall>i. bisect_loop a x 0 (length a) \<le> i \<and> i < length a \<longrightarrow> \<not> a ! i < x)"
  proof (rule bisect_loop_bounds [OF assms])
    show "\<forall>i. length a \<le> i \<and> i < length a \<longrightarrow> \<not> a ! i < x"
      by (meson leD)
  qed simp_all
  show "bisect_left a x \<le> length a"
    using all unfolding bisect_left_def by blast
  show "\<And>i. i < bisect_left a x \<Longrightarrow> a ! i < x"
    using all unfolding bisect_left_def by blast
  show "\<And>i. bisect_left a x \<le> i \<Longrightarrow> i < length a \<Longrightarrow> \<not> a ! i < x"
    using all unfolding bisect_left_def by blast
qed

lemma sorted_filter_less: "sorted vs \<Longrightarrow> filter (\<lambda>v. v < x) vs = takeWhile (\<lambda>v. v < x) vs"
proof (induction vs)
  case Nil
  then show ?case by simp
next
  case (Cons a vs)
  show ?case
  proof (cases "a < x")
    case True
    with Cons show ?thesis by simp
  next
    case False
    with Cons.prems have "\<forall>v\<in>set vs. \<not> v < x" by auto
    then have "filter (\<lambda>v. v < x) vs = []" by (simp add: filter_empty_conv)
    with False show ?thesis by simp
  qed
qed

lemma bisect_left_insertion_index:
  assumes "sorted a"
  shows "bisect_left a x = insertion_index a x"
proof -
  let ?P = "\<lambda>v. v < x"
  let ?n = "length (takeWhile ?P a)"
  let ?r = "bisect_left a x"
  have n_le: "?n \<le> length a" by (rule length_takeWhile_le)
  have "\<not> ?r < ?n"
  proof
    assume lt: "?r < ?n"
    then have "takeWhile ?P a ! ?r = a ! ?r" by (rule takeWhile_nth)
    moreover have "takeWhile ?P a ! ?r \<in> set (takeWhile ?P a)" using lt by simp
    ultimately have "a ! ?r < x" using set_takeWhileD by metis
    moreover have "?r < length a" using lt n_le by simp
    ultimately show False using bisect_left_bounds(3) [OF assms, of x ?r] by simp
  qed
  moreover have "\<not> ?n < ?r"
  proof
    assume lt: "?n < ?r"
    then have "?n < length a" using bisect_left_bounds(1) [OF assms, of x] by simp
    then have "\<not> a ! ?n < x" by (rule nth_length_takeWhile)
    then show False using bisect_left_bounds(2) [OF assms lt] by simp
  qed
  ultimately show ?thesis
    by (simp add: insertion_index_def sorted_filter_less [OF assms])
qed

lemma insertion_index_below:
  assumes "sorted vs" and "i < insertion_index vs x"
  shows "i < length vs" and "vs ! i < x"
proof -
  let ?P = "\<lambda>v. v < x"
  have lt: "i < length (takeWhile ?P vs)"
    using assms by (simp add: insertion_index_def sorted_filter_less)
  then show "i < length vs" using length_takeWhile_le [of ?P vs] by simp
  have "takeWhile ?P vs ! i = vs ! i" using lt by (rule takeWhile_nth)
  moreover have "takeWhile ?P vs ! i \<in> set (takeWhile ?P vs)" using lt by simp
  ultimately show "vs ! i < x" using set_takeWhileD by metis
qed

lemma insertion_index_above:
  assumes "sorted vs" and "insertion_index vs x \<le> i" and "i < length vs"
  shows "\<not> vs ! i < x"
  using assms bisect_left_bounds(3) [OF assms(1), of x i]
  by (simp add: bisect_left_insertion_index)

lemma insertion_index_le_length: "insertion_index vs x \<le> length vs"
  by (simp add: insertion_index_def)

text \<open>An element below the target stands before the insertion index.\<close>

lemma below_before_insertion_index:
  assumes "sorted vs" and "w \<in> set vs" and "w < x" and "0 < insertion_index vs x"
  shows "w \<le> vs ! (insertion_index vs x - 1)"
proof -
  obtain j where j: "j < length vs" "vs ! j = w"
    using assms(2) by (auto simp: in_set_conv_nth)
  have "j < insertion_index vs x"
    using insertion_index_above [OF assms(1), of x j] j assms(3) by force
  then have "j \<le> insertion_index vs x - 1" by simp
  moreover have "insertion_index vs x - 1 < length vs"
    using insertion_index_le_length [of vs x] assms(4) by simp
  ultimately show ?thesis
    using sorted_nth_mono [OF assms(1)] j by blast
qed

lemma parsed_pairs_Cons:
  "parsed_pairs (t # ts) =
      (case getitem t ''tag_name'' of
         Inl e \<Rightarrow> []
       | Inr name \<Rightarrow> (case parse_version name of Inl e \<Rightarrow> [] | Inr v \<Rightarrow> [(v, name)])) @ parsed_pairs ts"
  by (simp add: parsed_pairs_def)

lemma map_add_rev_Cons: "m ++ map_of (rev ((v, n) # ps)) = m(v \<mapsto> n) ++ map_of (rev ps)"
  by (rule ext) (simp add: map_add_def split: option.splits)

lemma collect_parsed_pairs:
  "collect_parsed ts (ps, m) = (ps @ map fst (parsed_pairs ts), m ++ map_of (rev (parsed_pairs ts)))"
proof (induction ts arbitrary: ps m)
  case Nil
  then show ?case by (simp add: parsed_pairs_def)
next
  case (Cons t ts)
  show ?case
  proof (cases "getitem t ''tag_name''")
    case (Inl e)
    then show ?thesis by (simp add: parsed_pairs_Cons Cons.IH)
  next
    case (Inr name)
    show ?thesis
    proof (cases "parse_version name")
      case (Inl e)
      with Inr show ?thesis by (simp add: parsed_pairs_Cons Cons.IH)
    next
      case v: (Inr v)
      have pp: "parsed_pairs (t # ts) = (v, name) # parsed_pairs ts"
        using Inr v by (simp add: parsed_pairs_Cons)
      have "collect_parsed (t # ts) (ps, m) = collect_parsed ts (ps @ [v], m(v \<mapsto> name))"
        using Inr v by simp
      also have "\<dots> = ((ps @ [v]) @ map fst (parsed_pairs ts),
                        m(v \<mapsto> name) ++ map_of (rev (parsed_pairs ts)))"
        by (rule Cons.IH)
      also have "\<dots> = (ps @ map fst (parsed_pairs (t # ts)),
                        m ++ map_of (rev (parsed_pairs (t # ts))))"
        unfolding pp map_add_rev_Cons by simp
      finally show ?thesis .
    qed
  qed
qed

lemma parsed_pairs_iff:
  "(v, name) \<in> set (parsed_pairs tags) \<longleftrightarrow>
     (\<exists>t\<in>set tags. getitem t ''tag_name'' = Inr name \<and> parse_version name = Inr v)"
proof (induction tags)
  case Nil
  then show ?case by (simp add: parsed_pairs_def)
next
  case (Cons t ts)
  show ?case
    unfolding parsed_pairs_Cons using Cons.IH
    by (cases "getitem t ''tag_name''"; cases "parse_version (projr (getitem t ''tag_name''))") auto
qed

lemma lookup_pairs:
  assumes "v \<in> fst ` set pairs"
  shows "\<exists>name. lookup (map_of (rev pairs)) v = Inr name \<and> (v, name) \<in> set pairs"
proof -
  have "map_of (rev pairs) v \<noteq> None"
    using assms by (simp add: map_of_eq_None_iff)
  then obtain name where n: "map_of (rev pairs) v = Some name" by auto
  then have "(v, name) \<in> set (rev pairs)" by (rule map_of_SomeD)
  with n show ?thesis by (auto simp: lookup_def)
qed

lemma insertion_index_pos:
  assumes "w \<in> set vs" and "w < x"
  shows "0 < insertion_index vs x"
proof -
  have "w \<in> set (filter (\<lambda>v. v < x) vs)" using assms by simp
  then show ?thesis unfolding insertion_index_def by (rule length_pos_if_in_set)
qed

lemma insertion_index_zero:
  assumes "\<forall>w\<in>set vs. \<not> w < x"
  shows "insertion_index vs x = 0"
  using assms by (simp add: insertion_index_def filter_empty_conv)

lemma find_closest_version_tag_eq:
  assumes "parse_version (if startswith input_tag ''v'' then input_tag else ''v'' @ input_tag) = Inr target"
  shows "find_closest_version_tag all_tags input_tag = nearest_by_version (parsed_pairs all_tags) target"
proof -
  have srt: "sorted (sort (map fst (parsed_pairs all_tags)))" by simp
  have mem: "map_of (rev (parsed_pairs all_tags)) target \<noteq> None
      \<longleftrightarrow> target \<in> set (sort (map fst (parsed_pairs all_tags)))"
    by (simp add: map_of_eq_None_iff)
  have bis: "bisect_left (sort (map fst (parsed_pairs all_tags))) target
      = insertion_index (sort (map fst (parsed_pairs all_tags))) target"
    by (rule bisect_left_insertion_index [OF srt])
  show ?thesis
  proof (cases "startswith input_tag ''v''")
    case True
    with assms have p: "parse_version input_tag = Inr target" by simp
    show ?thesis
      unfolding find_closest_version_tag_def nearest_by_version_def collect_parsed_pairs Let_def
      using True p mem bis by simp
  next
    case False
    with assms have p: "parse_version (''v'' @ input_tag) = Inr target" by simp
    show ?thesis
      unfolding find_closest_version_tag_def nearest_by_version_def collect_parsed_pairs Let_def
      using False p mem bis by simp
  qed
qed

text \<open>
  Claim C9.  For a target that parses, \<open>find_closest_version_tag\<close> is
  \<open>nearest_by_version\<close> on the parsed tags: the insertion index that the binary search
  finds is the insertion position.  So it returns a tag of the target's version when
  there is one; otherwise a tag of the greatest version below the target when some
  version is below it; otherwise a tag of the least version; and it fails with \<open>Exit\<close>
  when no tag parses.  By \<open>parsed_pairs_iff\<close> a pair of \<open>parsed_pairs\<close> is a tag name of
  the catalog with the version it parses to.
\<close>

theorem find_closest_version_tag_nearest:
  assumes "parse_version (if startswith input_tag ''v'' then input_tag else ''v'' @ input_tag) = Inr target"
  shows "find_closest_version_tag all_tags input_tag = nearest_by_version (parsed_pairs all_tags) target
    \<and> (target \<in> fst ` set (parsed_pairs all_tags) \<longrightarrow>
         (\<exists>name. find_closest_version_tag all_tags input_tag = Inr name
             \<and> (target, name) \<in> set (parsed_pairs all_tags)))
    \<and> (target \<notin> fst ` set (parsed_pairs all_tags)
          \<and> (\<exists>w\<in>fst ` set (parsed_pairs all_tags). w < target) \<longrightarrow>
         (\<exists>v name. find_closest_version_tag all_tags input_tag = Inr name
             \<and> (v, name) \<in> set (parsed_pairs all_tags) \<and> v < target
             \<and> (\<forall>w\<in>fst ` set (parsed_pairs all_tags). w < target \<longrightarrow> w \<le> v)))
    \<and> (parsed_pairs all_tags \<noteq> [] \<and> (\<forall>w\<in>fst ` set (parsed_pairs all_tags). target < w) \<longrightarrow>
         (\<exists>v name. find_closest_version_tag all_tags input_tag = Inr name
             \<and> (v, name) \<in> set (parsed_pairs all_tags)
             \<and> (\<forall>w\<in>fst ` set (parsed_pairs all_tags). v \<le> w)))
    \<and> (parsed_pairs all_tags = [] \<longrightarrow> find_closest_version_tag all_tags input_tag = Inl Exit)"
proof -
  define pairs where "pairs = parsed_pairs all_tags"
  define vs where "vs = sort (map fst pairs)"
  define k where "k = insertion_index vs target"
  define res where "res = find_closest_version_tag all_tags input_tag"
  have srt: "sorted vs" by (simp add: vs_def)
  have set_vs: "set vs = fst ` set pairs" by (simp add: vs_def)
  have len_vs: "length vs = length pairs" by (simp add: vs_def)
  have eq: "res = nearest_by_version pairs target"
    unfolding res_def pairs_def by (rule find_closest_version_tag_eq [OF assms])
  have unfold: "res = (if target \<in> set vs then lookup (map_of (rev pairs)) target
         else if 0 < k then lookup (map_of (rev pairs)) (vs ! (k - 1))
         else if k < length vs then lookup (map_of (rev pairs)) (vs ! k)
         else Inl Exit)"
    unfolding eq nearest_by_version_def Let_def vs_def k_def ..
  have exact: "\<exists>name. res = Inr name \<and> (target, name) \<in> set pairs"
    if "target \<in> fst ` set pairs"
  proof -
    from that have "target \<in> set vs" by (simp add: set_vs)
    then have "res = lookup (map_of (rev pairs)) target" by (simp add: unfold)
    with lookup_pairs [OF that] show ?thesis by simp
  qed
  have below: "\<exists>v name. res = Inr name \<and> (v, name) \<in> set pairs \<and> v < target
             \<and> (\<forall>w\<in>fst ` set pairs. w < target \<longrightarrow> w \<le> v)"
    if notin: "target \<notin> fst ` set pairs" and ex: "\<exists>w\<in>fst ` set pairs. w < target"
  proof -
    from ex obtain w where w: "w \<in> set vs" "w < target" by (auto simp: set_vs)
    have kpos: "0 < k" unfolding k_def by (rule insertion_index_pos [OF w])
    have klen: "k - 1 < k" using kpos by simp
    let ?v = "vs ! (k - 1)"
    have inb: "k - 1 < length vs" and lt: "?v < target"
      using insertion_index_below [OF srt, of "k - 1" target] klen by (simp_all add: k_def)
    have vin: "?v \<in> fst ` set pairs" using inb set_vs nth_mem by blast
    have "res = lookup (map_of (rev pairs)) ?v"
      using notin kpos by (simp add: unfold set_vs)
    with lookup_pairs [OF vin] obtain name where n: "res = Inr name" "(?v, name) \<in> set pairs"
      by auto
    have "\<forall>w\<in>fst ` set pairs. w < target \<longrightarrow> w \<le> ?v"
    proof (intro ballI impI)
      fix u assume "u \<in> fst ` set pairs" "u < target"
      then show "u \<le> ?v"
        using below_before_insertion_index [OF srt, of u target] kpos
        by (simp add: set_vs k_def)
    qed
    with n lt show ?thesis by blast
  qed
  have above: "\<exists>v name. res = Inr name \<and> (v, name) \<in> set pairs \<and> (\<forall>w\<in>fst ` set pairs. v \<le> w)"
    if ne: "pairs \<noteq> []" and all: "\<forall>w\<in>fst ` set pairs. target < w"
  proof -
    have notin: "target \<notin> set vs"
    proof
      assume "target \<in> set vs"
      then have "target \<in> fst ` set pairs" by (simp only: set_vs)
      with all have "target < target" by (rule bspec)
      then show False by simp
    qed
    have "\<forall>w\<in>set vs. \<not> w < target"
    proof
      fix w assume "w \<in> set vs"
      then have "w \<in> fst ` set pairs" by (simp only: set_vs)
      with all have "target < w" by (rule bspec)
      then show "\<not> w < target" by (simp add: not_less less_imp_le)
    qed
    then have k0: "k = 0" unfolding k_def by (rule insertion_index_zero)
    have pos: "0 < length vs" using ne by (simp add: len_vs)
    let ?v = "vs ! 0"
    have vin: "?v \<in> fst ` set pairs" using pos set_vs nth_mem by blast
    have "res = lookup (map_of (rev pairs)) ?v"
      using notin k0 pos by (simp add: unfold)
    with lookup_pairs [OF vin] obtain name where n: "res = Inr name" "(?v, name) \<in> set pairs"
      by auto
    have "\<forall>w\<in>fst ` set pairs. ?v \<le> w"
    proof
      fix u assume "u \<in> fst ` set pairs"
      then obtain j where "j < length vs" "vs ! j = u"
        by (auto simp: set_vs [symmetric] in_set_conv_nth)
      then show "?v \<le> u" using sorted_nth_mono [OF srt, of 0 j] by simp
    qed
    with n show ?thesis by blast
  qed
  have none: "res = Inl Exit" if "pairs = []"
    using that by (simp add: unfold vs_def k_def insertion_index_def)
  show ?thesis
    using eq exact below above none unfolding res_def pairs_def by blast
qed

theorem find_closest_version_tag_nearest_witness:
  "parse_version (if startswith ''9.0.200'' ''v'' then ''9.0.200'' else ''v'' @ ''9.0.200'')
     = Inr (Version 9 0 200 4 0 [])
   \<and> find_closest_version_tag
        [release ''v9.0.100'', release ''nightly'', release ''v9.0.300'', release ''v8.0.1'']
        ''9.0.200'' = Inr ''v9.0.100''"
proof -
  have p: "parse_version (if startswith ''9.0.200'' ''v'' then ''9.0.200'' else ''v'' @ ''9.0.200'')
     = Inr (Version 9 0 200 4 0 [])"
    by code_simp
  have e: "nearest_by_version
        (parsed_pairs [release ''v9.0.100'', release ''nightly'', release ''v9.0.300'', release ''v8.0.1''])
        (Version 9 0 200 4 0 []) = Inr ''v9.0.100''"
    by code_simp
  from find_closest_version_tag_nearest [OF p,
      of "[release ''v9.0.100'', release ''nightly'', release ''v9.0.300'', release ''v8.0.1'']"]
  have "find_closest_version_tag
        [release ''v9.0.100'', release ''nightly'', release ''v9.0.300'', release ''v8.0.1'']
        ''9.0.200'' = nearest_by_version
        (parsed_pairs [release ''v9.0.100'', release ''nightly'', release ''v9.0.300'', release ''v8.0.1''])
        (Version 9 0 200 4 0 [])"
    by (rule conjunct1)
  with e p show ?thesis by (simp only:)
qed

section \<open>The exact match of \<open>install_dotnet\<close>\<close>

lemma major_pairs_Cons:
  "major_pairs r (t # ts) =
      (case getitem t ''tag_name'' of
         Inl e \<Rightarrow> []
       | Inr name \<Rightarrow> (case parse_version name of
                        Inl e \<Rightarrow> []
                      | Inr v \<Rightarrow> if major v = major r then [(v, name)] else [])) @ major_pairs r ts"
  by (simp add: major_pairs_def parsed_pairs_Cons split: sum.splits)

lemma collect_major_pairs:
  "collect_major r ts (ps, m) = (ps @ map fst (major_pairs r ts), m ++ map_of (rev (major_pairs r ts)))"
proof (induction ts arbitrary: ps m)
  case Nil
  then show ?case by (simp add: major_pairs_def parsed_pairs_def)
next
  case (Cons t ts)
  show ?case
  proof (cases "getitem t ''tag_name''")
    case (Inl e)
    then show ?thesis by (simp add: major_pairs_Cons Cons.IH)
  next
    case (Inr name)
    show ?thesis
    proof (cases "parse_version name")
      case (Inl e)
      with Inr show ?thesis by (simp add: major_pairs_Cons Cons.IH)
    next
      case v: (Inr v)
      show ?thesis
      proof (cases "major v = major r")
        case False
        with Inr v show ?thesis by (simp add: major_pairs_Cons Cons.IH)
      next
        case True
        have pp: "major_pairs r (t # ts) = (v, name) # major_pairs r ts"
          using Inr v True by (simp add: major_pairs_Cons)
        have "collect_major r (t # ts) (ps, m) = collect_major r ts (ps @ [v], m(v \<mapsto> name))"
          using Inr v True by simp
        also have "\<dots> = ((ps @ [v]) @ map fst (major_pairs r ts),
                        m(v \<mapsto> name) ++ map_of (rev (major_pairs r ts)))"
          by (rule Cons.IH)
        also have "\<dots> = (ps @ map fst (major_pairs r (t # ts)),
                        m ++ map_of (rev (major_pairs r (t # ts))))"
          unfolding pp map_add_rev_Cons by simp
        finally show ?thesis .
      qed
    qed
  qed
qed

lemma insertion_index_member:
  assumes "sorted vs" and "x \<in> set vs"
  shows "insertion_index vs x < length vs" and "vs ! insertion_index vs x = x"
proof -
  let ?k = "insertion_index vs x"
  obtain j where j: "j < length vs" "vs ! j = x"
    using assms(2) by (auto simp: in_set_conv_nth)
  have "\<not> j < ?k"
  proof
    assume "j < ?k"
    then have "vs ! j < x" by (rule insertion_index_below(2) [OF assms(1)])
    with j show False by simp
  qed
  then have kj: "?k \<le> j" by simp
  with j show klen: "?k < length vs" by simp
  have "vs ! ?k \<le> vs ! j" using sorted_nth_mono [OF assms(1) kj j(1)] .
  moreover have "\<not> vs ! ?k < x"
    by (rule insertion_index_above [OF assms(1) order_refl klen])
  ultimately show "vs ! ?k = x" using j by (simp add: not_less)
qed

lemma parse_version_Nil: "parse_version [] = Inl ValueError"
  by code_simp

lemma parsed_pairs_name_nonempty:
  assumes "(v, name) \<in> set (parsed_pairs tags)"
  shows "name \<noteq> []"
proof
  assume "name = []"
  with assms have "parse_version [] = Inr v" by (auto simp: parsed_pairs_iff)
  then show False by (simp add: parse_version_Nil)
qed

text \<open>
  Exact match: when the requested version is the version of a tag of the catalog and its
  normalized key is in the registry, that version's tag is chosen and no notice is
  printed.
\<close>

lemma install_dotnet_exact_match:
  assumes req: "parse_version (lstrip ''v'' tag) = Inr requested"
    and mem: "requested \<in> fst ` set (parsed_pairs all_tags)"
    and key: "normalized_version_for_nuget requested = Inr key"
    and reg: "key \<in> nuget_versions"
  shows "\<exists>name. install_dotnet tag all_tags nuget_versions = Inr (name, False)
           \<and> (requested, name) \<in> set (parsed_pairs all_tags)"
proof -
  define pairs where "pairs = major_pairs requested all_tags"
  define vs where "vs = sort (map fst pairs)"
  define m where "m = map_of (rev pairs)"
  have sub: "set pairs \<subseteq> set (parsed_pairs all_tags)"
    by (auto simp: pairs_def major_pairs_def)
  have mem': "requested \<in> fst ` set pairs"
    using mem by (force simp: pairs_def major_pairs_def)
  have ne: "map fst pairs \<noteq> []" using mem' by auto
  have srt: "sorted vs" by (simp add: vs_def)
  have in_vs: "requested \<in> set vs" using mem' by (simp add: vs_def)
  have idx: "bisect_left vs requested = insertion_index vs requested"
    by (rule bisect_left_insertion_index [OF srt])
  have at: "insertion_index vs requested < length vs" "vs ! insertion_index vs requested = requested"
    by (rule insertion_index_member [OF srt in_vs])+
  obtain name where name: "lookup m requested = Inr name" "(requested, name) \<in> set pairs"
    using lookup_pairs [OF mem'] unfolding m_def by blast
  have nonempty: "name \<noteq> []"
    using name(2) sub parsed_pairs_name_nonempty by blast
  have inreg: "is_version_in_nuget nuget_versions requested = Inr True"
    by (simp add: is_version_in_nuget_def key reg)
  have exact: "exact_match vs m nuget_versions requested (insertion_index vs requested) = Inr (Some name)"
    by (simp add: exact_match_def at inreg name(1))
  have "install_dotnet tag all_tags nuget_versions = Inr (name, False)"
    unfolding install_dotnet_def req collect_major_pairs
    using ne exact nonempty
    by (simp add: Let_def pairs_def [symmetric] vs_def [symmetric] m_def [symmetric] idx)
  with name(2) sub show ?thesis by blast
qed

section \<open>The nearest match of \<open>install_dotnet\<close>\<close>

text \<open>
  One step of the inner loop, for an index outside the list and for one inside it.  From
  here on the loop is unfolded by these two rules only.
\<close>

lemma try_directions_out:
  assumes "i = int idx + d * int j" and "i < 0 \<or> int (length vs) \<le> i"
  shows "try_directions vs m nuget r idx j (d # ds) = try_directions vs m nuget r idx j ds"
  using assms by (auto simp: Let_def)

lemma try_directions_in:
  assumes "i = int idx + d * int j" and "0 \<le> i" and "i < int (length vs)"
    and "major (vs ! nat i) = major r"
  shows "try_directions vs m nuget r idx j (d # ds) =
     (case is_version_in_nuget nuget (vs ! nat i) of
        Inl e \<Rightarrow> Inl e
      | Inr True \<Rightarrow> (case lookup m (vs ! nat i) of Inl e \<Rightarrow> Inl e | Inr name \<Rightarrow> Inr (Some name))
      | Inr False \<Rightarrow> try_directions vs m nuget r idx j ds)"
proof -
  have "\<not> (i < 0 \<or> int (length vs) \<le> i)" using assms(2,3) by simp
  then show ?thesis
    unfolding try_directions.simps(2) [of vs m nuget r idx j d ds] Let_def assms(1) [symmetric]
    using assms(4) by simp
qed

declare try_directions.simps [simp del]

lemma try_directions_pass:
  assumes majors: "\<forall>v\<in>set vs. major v = major r"
    and i: "i = int idx + d * int j"
    and miss: "nuget_miss nuget vs i"
  shows "try_directions vs m nuget r idx j (d # ds) = try_directions vs m nuget r idx j ds"
proof (cases "i < 0 \<or> int (length vs) \<le> i")
  case True
  then show ?thesis by (rule try_directions_out [OF i])
next
  case False
  then have inb: "0 \<le> i" "i < int (length vs)" by simp_all
  then have "nat i < length vs" by simp
  then have "vs ! nat i \<in> set vs" by (rule nth_mem)
  with majors have maj: "major (vs ! nat i) = major r" by blast
  from miss False have "is_version_in_nuget nuget (vs ! nat i) = Inr False"
    by (simp add: nuget_miss_def)
  then show ?thesis by (simp add: try_directions_in [OF i inb maj])
qed

lemma try_directions_miss:
  assumes majors: "\<forall>v\<in>set vs. major v = major r"
    and up: "nuget_miss nuget vs (int idx + int j)"
    and down: "nuget_miss nuget vs (int idx - int j)"
  shows "try_directions vs m nuget r idx j [1, - 1] = Inr None"
proof -
  have a: "int idx + int j = int idx + 1 * int j" by simp
  have b: "int idx - int j = int idx + (- 1) * int j" by simp
  show ?thesis
    by (simp only: try_directions_pass [OF majors a up] try_directions_pass [OF majors b down]
        try_directions.simps(1))
qed

lemma try_directions_up:
  assumes majors: "\<forall>v\<in>set vs. major v = major r"
    and inb: "idx + k < length vs"
    and hit: "is_version_in_nuget nuget (vs ! (idx + k)) = Inr True"
    and name: "lookup m (vs ! (idx + k)) = Inr name"
  shows "try_directions vs m nuget r idx k [1, - 1] = Inr (Some name)"
proof -
  define i where "i = int idx + int k"
  have i: "i = int idx + 1 * int k" by (simp add: i_def)
  have n: "nat i = idx + k" by (simp add: i_def nat_int_add)
  have "vs ! (idx + k) \<in> set vs" using inb by (rule nth_mem)
  with majors have maj: "major (vs ! nat i) = major r" unfolding n by blast
  have inb': "0 \<le> i" "i < int (length vs)" using inb unfolding i_def by linarith+
  show ?thesis
    using hit name unfolding try_directions_in [OF i inb' maj] n by simp
qed

lemma try_directions_down:
  assumes majors: "\<forall>v\<in>set vs. major v = major r"
    and up: "nuget_miss nuget vs (int idx + int k)"
    and le: "k \<le> idx" and inb: "idx - k < length vs"
    and hit: "is_version_in_nuget nuget (vs ! (idx - k)) = Inr True"
    and name: "lookup m (vs ! (idx - k)) = Inr name"
  shows "try_directions vs m nuget r idx k [1, - 1] = Inr (Some name)"
proof -
  have a: "int idx + int k = int idx + 1 * int k" by simp
  define i where "i = int idx - int k"
  have i: "i = int idx + (- 1) * int k" by (simp add: i_def)
  have n: "nat i = idx - k" unfolding i_def using le by linarith
  have "vs ! (idx - k) \<in> set vs" using inb by (rule nth_mem)
  with majors have maj: "major (vs ! nat i) = major r" unfolding n by blast
  have inb': "0 \<le> i" "i < int (length vs)" using inb le unfolding i_def by linarith+
  have "try_directions vs m nuget r idx k [- 1] = Inr (Some name)"
    using hit name unfolding try_directions_in [OF i inb' maj] n by simp
  then show ?thesis
    by (simp only: try_directions_pass [OF majors a up])
qed

lemma search_offsets_skip:
  assumes "\<forall>j\<in>set os1. try_directions vs m nuget r idx j [1, - 1] = Inr None"
  shows "search_offsets vs m nuget r idx (os1 @ os2) = search_offsets vs m nuget r idx os2"
  using assms by (induction os1) (simp_all add: truthy_def)

lemma upt_split:
  assumes "k < n"
  shows "[0..<n] = [0..<k] @ k # [Suc k..<n]"
proof -
  have "[0..<n] = [0..<k + (n - k)]" using assms by simp
  also have "\<dots> = [0..<k] @ [k..<k + (n - k)]" by (rule upt_add_eq_append) simp
  also have "[k..<k + (n - k)] = k # [Suc k..<n]" using assms by (simp add: upt_conv_Cons)
  finally show ?thesis .
qed

lemma fallback_search_first_hit:
  assumes k: "k < length vs"
    and nearer: "\<forall>j<k. try_directions vs m nuget r idx j [1, - 1] = Inr None"
    and hit: "try_directions vs m nuget r idx k [1, - 1] = Inr (Some name)"
    and ne: "name \<noteq> []"
  shows "fallback_search vs m nuget r idx = Inr (name, True)"
proof -
  have "search_offsets vs m nuget r idx [0..<length vs]
      = search_offsets vs m nuget r idx (k # [Suc k..<length vs])"
    unfolding upt_split [OF k] using nearer by (intro search_offsets_skip) simp
  also have "\<dots> = Inr (Some name)" using hit ne by (simp add: truthy_def)
  finally show ?thesis using ne by (simp add: fallback_search_def)
qed

lemma candidates_props:
  shows "sorted (candidates r tags)"
    and "set (candidates r tags) = fst ` set (major_pairs r tags)"
    and "\<forall>v\<in>set (candidates r tags). major v = major r"
    and "set (major_pairs r tags) \<subseteq> set (parsed_pairs tags)"
  by (auto simp: candidates_def major_pairs_def)

lemma install_dotnet_fallback_core:
  assumes req: "parse_version (lstrip ''v'' tag) = Inr requested"
    and vs: "vs = candidates requested all_tags"
    and idx: "idx = insertion_index vs requested"
    and k: "0 < k" "k < length vs"
    and nearer: "\<forall>j<k. nuget_miss nuget vs (int idx + int j) \<and> nuget_miss nuget vs (int idx - int j)"
    and hit: "try_directions vs (map_of (rev (major_pairs requested all_tags))) nuget requested idx k
                [1, - 1] = Inr (Some name)"
    and name: "(v, name) \<in> set (major_pairs requested all_tags)"
  shows "install_dotnet tag all_tags nuget = Inr (name, True)"
proof -
  define pairs where "pairs = major_pairs requested all_tags"
  define m where "m = map_of (rev pairs)"
  have vs': "vs = sort (map fst pairs)" by (simp add: vs candidates_def pairs_def)
  have srt: "sorted vs" unfolding vs by (rule candidates_props(1))
  have majors: "\<forall>v\<in>set vs. major v = major requested" unfolding vs by (rule candidates_props(3))
  have ne: "map fst pairs \<noteq> []" using name by (auto simp: pairs_def)
  have nonempty: "name \<noteq> []"
    using name candidates_props(4) [of requested all_tags] parsed_pairs_name_nonempty by blast
  have bis: "bisect_left vs requested = idx"
    unfolding idx by (rule bisect_left_insertion_index [OF srt])
  have miss0: "nuget_miss nuget vs (int idx)"
    using nearer k(1) by force
  have exact: "exact_match vs m nuget requested idx = Inr None"
  proof (cases "idx < length vs \<and> vs ! idx = requested")
    case False
    then show ?thesis unfolding exact_match_def by (simp only: if_False)
  next
    case True
    with miss0 have "is_version_in_nuget nuget (vs ! idx) = Inr False"
      by (simp add: nuget_miss_def)
    with True have "is_version_in_nuget nuget requested = Inr False" by simp
    with True show ?thesis unfolding exact_match_def by simp
  qed
  have none: "\<forall>j<k. try_directions vs m nuget requested idx j [1, - 1] = Inr None"
    using nearer try_directions_miss [OF majors] by blast
  have fb: "fallback_search vs m nuget requested idx = Inr (name, True)"
    by (rule fallback_search_first_hit [OF k(2) none _ nonempty])
      (use hit in \<open>simp add: m_def pairs_def\<close>)
  show ?thesis
    unfolding install_dotnet_def req collect_major_pairs
    using ne exact fb
    by (simp add: Let_def pairs_def [symmetric] vs' [symmetric] m_def [symmetric] bis)
qed

lemma candidate_name:
  assumes "i < length (candidates r tags)"
  shows "\<exists>name. lookup (map_of (rev (major_pairs r tags))) (candidates r tags ! i) = Inr name
           \<and> (candidates r tags ! i, name) \<in> set (major_pairs r tags)"
proof -
  have "candidates r tags ! i \<in> set (candidates r tags)" using assms by (rule nth_mem)
  then have "candidates r tags ! i \<in> fst ` set (major_pairs r tags)"
    by (simp only: candidates_props(2))
  then show ?thesis by (rule lookup_pairs)
qed

lemma install_dotnet_fallback_up:
  assumes req: "parse_version (lstrip ''v'' tag) = Inr requested"
    and vs: "vs = candidates requested all_tags"
    and idx: "idx = insertion_index vs requested"
    and k: "0 < k" "k < length vs"
    and nearer: "\<forall>j<k. nuget_miss nuget vs (int idx + int j) \<and> nuget_miss nuget vs (int idx - int j)"
    and inb: "idx + k < length vs"
    and hit: "is_version_in_nuget nuget (vs ! (idx + k)) = Inr True"
  shows "\<exists>name. install_dotnet tag all_tags nuget = Inr (name, True)
           \<and> (vs ! (idx + k), name) \<in> set (parsed_pairs all_tags)"
proof -
  from candidate_name [of "idx + k" requested all_tags] inb
  obtain name where n: "lookup (map_of (rev (major_pairs requested all_tags))) (vs ! (idx + k)) = Inr name"
    "(vs ! (idx + k), name) \<in> set (major_pairs requested all_tags)"
    unfolding vs by blast
  have majors: "\<forall>v\<in>set vs. major v = major requested" unfolding vs by (rule candidates_props(3))
  have "try_directions vs (map_of (rev (major_pairs requested all_tags))) nuget requested idx k
                [1, - 1] = Inr (Some name)"
    by (rule try_directions_up [OF majors inb hit n(1)])
  from install_dotnet_fallback_core [OF req vs idx k nearer this n(2)] n(2)
    candidates_props(4) [of requested all_tags]
  show ?thesis by blast
qed

lemma install_dotnet_fallback_down:
  assumes req: "parse_version (lstrip ''v'' tag) = Inr requested"
    and vs: "vs = candidates requested all_tags"
    and idx: "idx = insertion_index vs requested"
    and k: "0 < k" "k < length vs"
    and nearer: "\<forall>j<k. nuget_miss nuget vs (int idx + int j) \<and> nuget_miss nuget vs (int idx - int j)"
    and up: "nuget_miss nuget vs (int idx + int k)"
    and le: "k \<le> idx"
    and hit: "is_version_in_nuget nuget (vs ! (idx - k)) = Inr True"
  shows "\<exists>name. install_dotnet tag all_tags nuget = Inr (name, True)
           \<and> (vs ! (idx - k), name) \<in> set (parsed_pairs all_tags)"
proof -
  have "idx \<le> length vs" unfolding idx by (rule insertion_index_le_length)
  with k(1) le have inb: "idx - k < length vs" by simp
  from candidate_name [of "idx - k" requested all_tags] inb
  obtain name where n: "lookup (map_of (rev (major_pairs requested all_tags))) (vs ! (idx - k)) = Inr name"
    "(vs ! (idx - k), name) \<in> set (major_pairs requested all_tags)"
    unfolding vs by blast
  have majors: "\<forall>v\<in>set vs. major v = major requested" unfolding vs by (rule candidates_props(3))
  have "try_directions vs (map_of (rev (major_pairs requested all_tags))) nuget requested idx k
                [1, - 1] = Inr (Some name)"
    by (rule try_directions_down [OF majors up le inb hit n(1)])
  from install_dotnet_fallback_core [OF req vs idx k nearer this n(2)] n(2)
    candidates_props(4) [of requested all_tags]
  show ?thesis by blast
qed

text \<open>
  The example with keys that differ: the copies of \<open>9.0.100\<close> come first in the sorted
  list, none of them is in the registry, and the first element after them is \<open>9.1.100\<close>.
\<close>

lemma fallback_on_distinct_keys:
  assumes S: "fst ` set (major_pairs (Version 9 0 100 4 0 []) all_tags)
             = {Version 9 0 100 4 0 [], Version 9 1 100 4 0 [], Version 9 2 100 4 0 []}"
  shows "\<exists>name. install_dotnet ''9.0.100'' all_tags {''9.1.0''} = Inr (name, True)
           \<and> (Version 9 1 100 4 0 [], name) \<in> set (parsed_pairs all_tags)"
proof -
  let ?V0 = "Version 9 0 100 4 0 []" and ?V1 = "Version 9 1 100 4 0 []"
    and ?V2 = "Version 9 2 100 4 0 []"
  define vs where "vs = candidates ?V0 all_tags"
  define idx where "idx = insertion_index vs ?V0"
  define k where "k = insertion_index vs ?V1"
  have req: "parse_version (lstrip ''v'' ''9.0.100'') = Inr ?V0" by code_simp
  have miss0: "is_version_in_nuget {''9.1.0''} ?V0 = Inr False" by code_simp
  have hit1: "is_version_in_nuget {''9.1.0''} ?V1 = Inr True" by code_simp
  have srt: "sorted vs" unfolding vs_def by (rule candidates_props(1))
  have set_vs: "set vs = {?V0, ?V1, ?V2}" unfolding vs_def candidates_props(2) by (rule S)
  have lt: "?V0 < ?V1" "\<not> ?V1 < ?V1" "\<not> ?V2 < ?V1" "\<not> ?V0 < ?V0" "\<not> ?V1 < ?V0" "\<not> ?V2 < ?V0"
    by (simp_all add: less_version_def version_lt_def)
  have "\<forall>w\<in>set vs. \<not> w < ?V0" unfolding set_vs using lt by simp
  then have idx0: "idx = 0" unfolding idx_def by (rule insertion_index_zero)
  have in0: "?V0 \<in> set vs" and in1: "?V1 \<in> set vs" unfolding set_vs by simp_all
  have kpos: "0 < k" unfolding k_def by (rule insertion_index_pos [OF in0 lt(1)])
  have klen: "k < length vs" and atk: "vs ! k = ?V1"
    unfolding k_def by (rule insertion_index_member [OF srt in1])+
  have below: "vs ! j = ?V0" if "j < k" for j
  proof -
    have j: "j < length vs" "vs ! j < ?V1"
      using insertion_index_below [OF srt, of j ?V1] that unfolding k_def by simp_all
    then have "vs ! j \<in> set vs" by simp
    then have "vs ! j = ?V0 \<or> vs ! j = ?V1 \<or> vs ! j = ?V2" unfolding set_vs by simp
    with j(2) lt show ?thesis by auto
  qed
  have nearer: "\<forall>j<k. nuget_miss {''9.1.0''} vs (int idx + int j)
                    \<and> nuget_miss {''9.1.0''} vs (int idx - int j)"
  proof (intro allI impI conjI)
    fix j assume jk: "j < k"
    show "nuget_miss {''9.1.0''} vs (int idx + int j)"
      using below [OF jk] miss0 by (simp add: nuget_miss_def idx0)
    show "nuget_miss {''9.1.0''} vs (int idx - int j)"
    proof (cases "j = 0")
      case True
      then show ?thesis using below [OF kpos] miss0 by (simp add: nuget_miss_def idx0)
    next
      case False
      then show ?thesis by (simp add: nuget_miss_def idx0)
    qed
  qed
  have inb: "idx + k < length vs" using klen by (simp add: idx0)
  have hit: "is_version_in_nuget {''9.1.0''} (vs ! (idx + k)) = Inr True"
    using hit1 by (simp add: idx0 atk)
  from install_dotnet_fallback_up [OF req vs_def idx_def kpos klen nearer inb hit]
  show ?thesis by (simp add: idx0 atk)
qed

text \<open>
  Claim C1, amended.  Given a catalog whose parseable tags of major version 9 are
  \<open>9.0.100\<close>, \<open>9.1.100\<close> and \<open>9.2.100\<close>, and the registry that holds only the normalized
  key of \<open>9.1.100\<close>, which is \<open>9.1.0\<close>: the request \<open>9.0.100\<close> returns a tag of \<open>9.1.100\<close>
  and the nearest-version notice is printed (first conjunct).  It is the candidate at the
  next index: offset 1, direction \<open>+1\<close>.  The second conjunct is the order of the search
  on any catalog: when no candidate at a smaller offset is in the registry (the one at
  the insertion index included) and the offset is below the length of the list, the
  candidate at index plus offset is chosen when its key is in the registry, whether or
  not the one at index minus offset is; the candidate at index minus offset is chosen
  only when the one above is out of range or not in the registry.  Both come with the
  notice.
\<close>

theorem nearest_match_fallback:
  "(fst ` set (major_pairs (Version 9 0 100 4 0 []) all_tags)
        = {Version 9 0 100 4 0 [], Version 9 1 100 4 0 [], Version 9 2 100 4 0 []}
      \<longrightarrow> (\<exists>name. install_dotnet ''9.0.100'' all_tags {''9.1.0''} = Inr (name, True)
             \<and> (Version 9 1 100 4 0 [], name) \<in> set (parsed_pairs all_tags)))
   \<and> (parse_version (lstrip ''v'' tag) = Inr requested
        \<and> vs = candidates requested tags
        \<and> idx = insertion_index vs requested
        \<and> 0 < k \<and> k < length vs
        \<and> (\<forall>j<k. nuget_miss nuget_versions vs (int idx + int j)
                 \<and> nuget_miss nuget_versions vs (int idx - int j))
      \<longrightarrow> (idx + k < length vs \<and> is_version_in_nuget nuget_versions (vs ! (idx + k)) = Inr True
             \<longrightarrow> (\<exists>name. install_dotnet tag tags nuget_versions = Inr (name, True)
                    \<and> (vs ! (idx + k), name) \<in> set (parsed_pairs tags)))
          \<and> (nuget_miss nuget_versions vs (int idx + int k) \<and> k \<le> idx
               \<and> is_version_in_nuget nuget_versions (vs ! (idx - k)) = Inr True
             \<longrightarrow> (\<exists>name. install_dotnet tag tags nuget_versions = Inr (name, True)
                    \<and> (vs ! (idx - k), name) \<in> set (parsed_pairs tags))))"
proof (intro conjI impI)
  assume "fst ` set (major_pairs (Version 9 0 100 4 0 []) all_tags)
        = {Version 9 0 100 4 0 [], Version 9 1 100 4 0 [], Version 9 2 100 4 0 []}"
  then show "\<exists>name. install_dotnet ''9.0.100'' all_tags {''9.1.0''} = Inr (name, True)
             \<and> (Version 9 1 100 4 0 [], name) \<in> set (parsed_pairs all_tags)"
    by (rule fallback_on_distinct_keys)
next
  assume h: "parse_version (lstrip ''v'' tag) = Inr requested
        \<and> vs = candidates requested tags
        \<and> idx = insertion_index vs requested
        \<and> 0 < k \<and> k < length vs
        \<and> (\<forall>j<k. nuget_miss nuget_versions vs (int idx + int j)
                 \<and> nuget_miss nuget_versions vs (int idx - int j))"
    and u: "idx + k < length vs \<and> is_version_in_nuget nuget_versions (vs ! (idx + k)) = Inr True"
  from h have req: "parse_version (lstrip ''v'' tag) = Inr requested"
    and vs: "vs = candidates requested tags" and idx: "idx = insertion_index vs requested"
    and k: "0 < k" "k < length vs"
    and nearer: "\<forall>j<k. nuget_miss nuget_versions vs (int idx + int j)
                 \<and> nuget_miss nuget_versions vs (int idx - int j)"
    by blast+
  from u have inb: "idx + k < length vs"
    and hit: "is_version_in_nuget nuget_versions (vs ! (idx + k)) = Inr True" by blast+
  show "\<exists>name. install_dotnet tag tags nuget_versions = Inr (name, True)
                    \<and> (vs ! (idx + k), name) \<in> set (parsed_pairs tags)"
    by (rule install_dotnet_fallback_up [OF req vs idx k nearer inb hit])
next
  assume h: "parse_version (lstrip ''v'' tag) = Inr requested
        \<and> vs = candidates requested tags
        \<and> idx = insertion_index vs requested
        \<and> 0 < k \<and> k < length vs
        \<and> (\<forall>j<k. nuget_miss nuget_versions vs (int idx + int j)
                 \<and> nuget_miss nuget_versions vs (int idx - int j))"
    and d: "nuget_miss nuget_versions vs (int idx + int k) \<and> k \<le> idx
               \<and> is_version_in_nuget nuget_versions (vs ! (idx - k)) = Inr True"
  from h have req: "parse_version (lstrip ''v'' tag) = Inr requested"
    and vs: "vs = candidates requested tags" and idx: "idx = insertion_index vs requested"
    and k: "0 < k" "k < length vs"
    and nearer: "\<forall>j<k. nuget_miss nuget_versions vs (int idx + int j)
                 \<and> nuget_miss nuget_versions vs (int idx - int j)"
    by blast+
  from d have up: "nuget_miss nuget_versions vs (int idx + int k)" and le: "k \<le> idx"
    and hit: "is_version_in_nuget nuget_versions (vs ! (idx - k)) = Inr True" by blast+
  show "\<exists>name. install_dotnet tag tags nuget_versions = Inr (name, True)
                    \<and> (vs ! (idx - k), name) \<in> set (parsed_pairs tags)"
    by (rule install_dotnet_fallback_down [OF req vs idx k nearer up le hit])
qed

theorem nearest_match_fallback_witness:
  "install_dotnet ''9.0.100'' [release ''v9.0.100'', release ''v9.1.100'', release ''v9.2.100'']
       {''9.1.0''} = Inr (''v9.1.100'', True)
   \<and> install_dotnet ''9.1.100'' [release ''v9.0.100'', release ''v9.1.100'', release ''v9.2.100'']
       {''9.0.0'', ''9.2.0''} = Inr (''v9.2.100'', True)
   \<and> install_dotnet ''9.1.100'' [release ''v9.0.100'', release ''v9.1.100'', release ''v9.2.100'']
       {''9.0.0''} = Inr (''v9.0.100'', True)"
proof -
  let ?cat = "[release ''v9.0.100'', release ''v9.1.100'', release ''v9.2.100'']"
  let ?V0 = "Version 9 0 100 4 0 []" and ?V1 = "Version 9 1 100 4 0 []"
    and ?V2 = "Version 9 2 100 4 0 []"
  let ?vs = "[?V0, ?V1, ?V2]"
  have pp: "parsed_pairs ?cat = [(?V0, ''v9.0.100''), (?V1, ''v9.1.100''), (?V2, ''v9.2.100'')]"
    by code_simp
  have mpairs: "major_pairs ?V0 ?cat = [(?V0, ''v9.0.100''), (?V1, ''v9.1.100''), (?V2, ''v9.2.100'')]"
    by code_simp
  have S: "fst ` set (major_pairs ?V0 ?cat) = {?V0, ?V1, ?V2}" unfolding mpairs by simp
  have req: "parse_version (lstrip ''v'' ''9.1.100'') = Inr ?V1" by code_simp
  have vs: "?vs = candidates ?V1 ?cat" by code_simp
  have idx: "1 = insertion_index ?vs ?V1" by code_simp
  have m1: "nuget_miss {''9.0.0'', ''9.2.0''} ?vs 1" "nuget_miss {''9.0.0''} ?vs 1"
    "nuget_miss {''9.0.0''} ?vs 2"
    by code_simp+
  have h2: "is_version_in_nuget {''9.0.0'', ''9.2.0''} ?V2 = Inr True"
    "is_version_in_nuget {''9.0.0''} ?V0 = Inr True"
    by code_simp+
  have near2: "\<forall>j<1. nuget_miss {''9.0.0'', ''9.2.0''} ?vs (int 1 + int j)
                 \<and> nuget_miss {''9.0.0'', ''9.2.0''} ?vs (int 1 - int j)"
    using m1(1) by simp
  have near3: "\<forall>j<1. nuget_miss {''9.0.0''} ?vs (int 1 + int j)
                 \<and> nuget_miss {''9.0.0''} ?vs (int 1 - int j)"
    using m1(2) by simp
  from nearest_match_fallback [of ?cat] S
  obtain n1 where n1: "install_dotnet ''9.0.100'' ?cat {''9.1.0''} = Inr (n1, True)"
    "(?V1, n1) \<in> set (parsed_pairs ?cat)"
    by blast
  from n1(2) have e1: "n1 = ''v9.1.100''" unfolding pp by simp
  have H2: "parse_version (lstrip ''v'' ''9.1.100'') = Inr ?V1
        \<and> ?vs = candidates ?V1 ?cat
        \<and> 1 = insertion_index ?vs ?V1
        \<and> 0 < (1::nat) \<and> 1 < length ?vs
        \<and> (\<forall>j<1. nuget_miss {''9.0.0'', ''9.2.0''} ?vs (int 1 + int j)
                 \<and> nuget_miss {''9.0.0'', ''9.2.0''} ?vs (int 1 - int j))"
    by (intro conjI) (rule req vs idx near2 | simp)+
  have U2: "1 + 1 < length ?vs \<and> is_version_in_nuget {''9.0.0'', ''9.2.0''} (?vs ! (1 + 1)) = Inr True"
    using h2(1) by simp
  note up = nearest_match_fallback [of _ "''9.1.100''" ?V1 ?vs ?cat 1 1 "{''9.0.0'', ''9.2.0''}",
      THEN conjunct2, THEN mp, OF H2, THEN conjunct1, THEN mp, OF U2]
  then obtain n2 where n2: "install_dotnet ''9.1.100'' ?cat {''9.0.0'', ''9.2.0''} = Inr (n2, True)"
    "(?vs ! (1 + 1), n2) \<in> set (parsed_pairs ?cat)"
    by blast
  from n2(2) have e2: "n2 = ''v9.2.100''" unfolding pp by simp
  have H3: "parse_version (lstrip ''v'' ''9.1.100'') = Inr ?V1
        \<and> ?vs = candidates ?V1 ?cat
        \<and> 1 = insertion_index ?vs ?V1
        \<and> 0 < (1::nat) \<and> 1 < length ?vs
        \<and> (\<forall>j<1. nuget_miss {''9.0.0''} ?vs (int 1 + int j)
                 \<and> nuget_miss {''9.0.0''} ?vs (int 1 - int j))"
    by (intro conjI) (rule req vs idx near3 | simp)+
  have D3: "nuget_miss {''9.0.0''} ?vs (int 1 + int 1) \<and> (1::nat) \<le> 1
               \<and> is_version_in_nuget {''9.0.0''} (?vs ! (1 - 1)) = Inr True"
    using m1(3) h2(2) by simp
  note down = nearest_match_fallback [of _ "''9.1.100''" ?V1 ?vs ?cat 1 1 "{''9.0.0''}",
      THEN conjunct2, THEN mp, OF H3, THEN conjunct2, THEN mp, OF D3]
  then obtain n3 where n3: "install_dotnet ''9.1.100'' ?cat {''9.0.0''} = Inr (n3, True)"
    "(?vs ! (1 - 1), n3) \<in> set (parsed_pairs ?cat)"
    by blast
  from n3(2) have e3: "n3 = ''v9.0.100''" unfolding pp by simp
  from n1(1) n2(1) n3(1) e1 e2 e3 show ?thesis by simp
qed

section \<open>Digits, \<open>int\<close> and \<open>str\<close>\<close>

lemma is_digit_not_special:
  assumes "is_digit c"
  shows "c \<noteq> CHR ''.''" "c \<noteq> CHR ''-''" "c \<noteq> CHR ''+''" "c \<noteq> CHR ''_''" "c \<noteq> CHR ''v''"
    "\<not> is_space c"
  using assms by (auto simp: is_digit_def is_space_def)

lemma digit_val_range: "is_digit c \<Longrightarrow> 0 \<le> digit_val c \<and> digit_val c \<le> 9"
  by (auto simp: is_digit_def digit_val_def)

lemma digit_char_digit_val: "is_digit c \<Longrightarrow> digit_char (digit_val c) = c"
  by (simp add: digit_char_def digit_val_def)

lemma digit_char_0: "digit_char 0 = CHR ''0''"
  by code_simp

lemma digit_val_zero: "is_digit c \<Longrightarrow> digit_val c = 0 \<Longrightarrow> c = CHR ''0''"
  using digit_char_digit_val [of c] by (simp add: digit_char_0)

lemma digits_value_snoc: "digits_value (ds @ [c]) = 10 * digits_value ds + digit_val c"
  by (simp add: digits_value_def)

lemma digits_value_nonneg: "list_all is_digit ds \<Longrightarrow> 0 \<le> digits_value ds"
proof (induction ds rule: rev_induct)
  case Nil
  then show ?case by (simp add: digits_value_def)
next
  case (snoc c ds)
  then show ?case using digit_val_range [of c] by (simp add: digits_value_snoc)
qed

lemma digits_of_small: "n < 10 \<Longrightarrow> digits_of n = [digit_char n]"
  by (simp add: digits_of.simps [of n])

lemma digits_of_large: "10 \<le> n \<Longrightarrow> digits_of n = digits_of (n div 10) @ [digit_char (n mod 10)]"
  by (simp add: digits_of.simps [of n])

lemma digits_of_value:
  assumes "ds \<noteq> []" and "list_all is_digit ds" and "hd ds \<noteq> CHR ''0''"
  shows "0 < digits_value ds \<and> digits_of (digits_value ds) = ds"
  using assms
proof (induction ds rule: rev_nonempty_induct)
  case (single c)
  have r: "0 \<le> digit_val c \<and> digit_val c \<le> 9" using single by (simp add: digit_val_range)
  have "digit_val c \<noteq> 0" using single digit_val_zero [of c] by auto
  with r have pos: "0 < digit_val c" by simp
  have v: "digits_value [c] = digit_val c" by (simp add: digits_value_def)
  have "digits_of (digit_val c) = [c]"
    using r single by (simp add: digits_of_small digit_char_digit_val)
  with pos v show ?case by simp
next
  case (snoc c ds)
  have hd: "hd ds \<noteq> CHR ''0''" using snoc.hyps snoc.prems by simp
  have dig: "list_all is_digit ds" "is_digit c" using snoc.prems by simp_all
  have ih: "0 < digits_value ds" "digits_of (digits_value ds) = ds"
    using snoc.IH [OF dig(1) hd] by simp_all
  have r: "0 \<le> digit_val c \<and> digit_val c \<le> 9" using dig(2) by (rule digit_val_range)
  let ?v = "10 * digits_value ds + digit_val c"
  have big: "10 \<le> ?v" using ih(1) r by simp
  have d: "?v div 10 = digits_value ds" using r by simp
  have m: "?v mod 10 = digit_val c" using r by simp
  have "digits_of ?v = ds @ [c]"
    by (simp only: digits_of_large [OF big] d m ih(2) digit_char_digit_val [OF dig(2)])
  with big show ?case by (simp add: digits_value_snoc)
qed

lemma is_digit_0: "is_digit (CHR ''0'')"
  by code_simp

lemma canonical_digits:
  "canonical_number d \<Longrightarrow> d \<noteq> [] \<and> list_all is_digit d \<and> int (length d) \<le> int_max_str_digits"
  by (auto simp: canonical_number_def is_digit_0)

lemma digits_value_0: "digits_value ''0'' = 0"
  by code_simp

lemma digits_of_0: "digits_of 0 = ''0''"
  by code_simp

lemma py_str_digits_value: "canonical_number d \<Longrightarrow> py_str (digits_value d) = d"
proof -
  assume c: "canonical_number d"
  show ?thesis
  proof (cases "d = ''0''")
    case True
    then show ?thesis by (simp add: py_str_def digits_value_0 digits_of_0)
  next
    case False
    with c have "d \<noteq> []" "list_all is_digit d" "hd d \<noteq> CHR ''0''"
      by (auto simp: canonical_number_def)
    from digits_of_value [OF this] show ?thesis by (simp add: py_str_def)
  qed
qed

lemma str_split_no_sep: "sep \<notin> set s \<Longrightarrow> str_split sep s = [s]"
  by (induction s) auto

lemma str_split_append: "sep \<notin> set a \<Longrightarrow> str_split sep (a @ sep # r) = a # str_split sep r"
  by (induction a) auto

lemma digits_no_special:
  assumes "list_all is_digit ds"
  shows "CHR ''.'' \<notin> set ds" "CHR ''-'' \<notin> set ds" "CHR ''_'' \<notin> set ds"
proof -
  have dig: "is_digit c" if "c \<in> set ds" for c
    using assms that by (simp add: list_all_iff)
  show "CHR ''.'' \<notin> set ds" using dig is_digit_not_special(1) by blast
  show "CHR ''-'' \<notin> set ds" using dig is_digit_not_special(2) by blast
  show "CHR ''_'' \<notin> set ds" using dig is_digit_not_special(4) by blast
qed

lemma strip_space_digits:
  assumes "list_all is_digit ds"
  shows "strip_space ds = ds"
proof (cases ds)
  case Nil
  then show ?thesis by (simp add: strip_space_def)
next
  case (Cons c cs)
  have "\<not> is_space (hd ds)" using Cons assms by (simp add: is_digit_not_special)
  then have front: "dropWhile is_space ds = ds" using Cons by simp
  have "last ds \<in> set ds" using Cons by simp
  then have "\<not> is_space (last ds)" using assms is_digit_not_special(6) by (auto simp: list_all_iff)
  then have "dropWhile is_space (rev ds) = rev ds"
    unfolding dropWhile_eq_self_iff hd_rev by blast
  with front show ?thesis by (simp add: strip_space_def)
qed

lemma py_int_digits:
  assumes "ds \<noteq> []" and "list_all is_digit ds" and "int (length ds) \<le> int_max_str_digits"
  shows "py_int ds = Inr (digits_value ds)"
proof -
  obtain c cs where ds: "ds = c # cs" using assms(1) by (cases ds) auto
  have c: "c \<noteq> CHR ''-''" "c \<noteq> CHR ''+''"
    using assms(2) ds is_digit_not_special by auto
  have groups: "digit_groups_ok ds"
    using assms digits_no_special(3) [OF assms(2)] by (simp add: digit_groups_ok_def str_split_no_sep)
  have filt: "filter (\<lambda>c. c \<noteq> CHR ''_'') ds = ds"
    using digits_no_special(3) [OF assms(2)] by (auto simp: filter_id_conv)
  have "py_int ds = (if digit_groups_ok ds
         then (if int (length (filter (\<lambda>c. c \<noteq> CHR ''_'') ds)) > int_max_str_digits
               then Inl ValueError
               else Inr (digits_value (filter (\<lambda>c. c \<noteq> CHR ''_'') ds)))
         else Inl ValueError)"
    unfolding py_int_def strip_space_digits [OF assms(2)] using c by (simp add: ds Let_def)
  with groups filt assms(3) show ?thesis by simp
qed

lemma map_int_digits:
  assumes "list_all (\<lambda>d. d \<noteq> [] \<and> list_all is_digit d \<and> int (length d) \<le> int_max_str_digits) ps"
  shows "map_int ps = Inr (map digits_value ps)"
  using assms by (induction ps) (simp_all add: py_int_digits)

section \<open>When \<open>parse_version\<close> raises\<close>

lemma list_all_takeWhile: "list_all P (takeWhile P xs)"
  by (induction xs) simp_all

lemma full_match_SomeD:
  assumes "full_match suffix = Some (st, num, g)"
  shows "num \<noteq> []" and "list_all is_digit num" and "list_all is_digit_or_dot g" and "suffix \<noteq> []"
proof -
  from assms obtain r1 r2 r3 where
    "match_stage suffix = Some (st, r1)" and "eat_dot r1 = Some r2"
    and num: "num = takeWhile is_digit r2" "num \<noteq> []"
    and "eat_dot (dropWhile is_digit r2) = Some r3"
    and g: "g = takeWhile is_digit_or_dot r3" "g \<noteq> []"
    by (auto simp: full_match_def Let_def split: option.splits if_splits)
  show "num \<noteq> []" by (rule num(2))
  show "list_all is_digit num" unfolding num(1) by (rule list_all_takeWhile)
  show "list_all is_digit_or_dot g" unfolding g(1) by (rule list_all_takeWhile)
  show "suffix \<noteq> []"
  proof
    assume "suffix = []"
    then have "full_match suffix = None"
      by (simp add: full_match_def match_stage_def startswith_def)
    with assms show False by simp
  qed
qed

lemma parse_version_unfold:
  assumes "str_partition (CHR ''-'') (lstrip ''v'' tag) = (base_part, sep, suffix)"
    and "unpack3 (str_split (CHR ''.'') base_part) = Inr (ma, mi, pa)"
  shows "parse_version tag =
     (case parse_suffix suffix of
        Inl e \<Rightarrow> Inl e
      | Inr (stage, n, b) \<Rightarrow> Inr (Version ma mi pa (stage_priority_of stage) n b))"
  by (simp add: parse_version_def Let_def assms)

text \<open>
  The part of claim C3 about unrecognised suffixes holds: when the base part gives three
  numbers and the suffix is not empty and matches neither pattern, the result has
  priority \<open>-1\<close>, stage number 0 and an empty build; with no suffix it is the stable
  version.
\<close>

lemma parse_version_unknown_suffix:
  assumes "str_partition (CHR ''-'') (lstrip ''v'' tag) = (base_part, sep, suffix)"
    and "unpack3 (str_split (CHR ''.'') base_part) = Inr (ma, mi, pa)"
  shows "suffix \<noteq> [] \<Longrightarrow> full_match suffix = None \<Longrightarrow> simple_match suffix = None
           \<Longrightarrow> parse_version tag = Inr (Version ma mi pa (- 1) 0 [])"
    and "suffix = [] \<Longrightarrow> parse_version tag = Inr (Version ma mi pa 4 0 [])"
  by (simp_all add: parse_version_unfold [OF assms] parse_suffix_def stage_priority_of_values)

text \<open>
  Claim C3 says that parsing never raises once the base part is three numbers, a suffix
  of unknown format giving the priority \<open>-1\<close>.  The code does that for a suffix that
  neither pattern matches (\<open>rc.x\<close>, the last conjunct), and its comment says so
  ("Unknown format: assign lowest priority").  But the build group \<open>[\d.]+\<close> of both
  patterns also takes a leading, trailing or doubled dot: the suffix \<open>rc.1.\<close> is matched
  by the short pattern with the build text \<open>1.\<close>, whose last piece is empty, and
  \<open>int('')\<close> raises \<open>ValueError\<close> out of \<open>parse_version\<close>.
\<close>

theorem parse_version_raises_on_empty_build_piece:
  "str_partition (CHR ''-'') (lstrip ''v'' ''v1.2.3-rc.1.'') = (''1.2.3'', ''-'', ''rc.1.'')
   \<and> unpack3 (str_split (CHR ''.'') ''1.2.3'') = Inr (1, 2, 3)
   \<and> full_match ''rc.1.'' = None
   \<and> simple_match ''rc.1.'' = Some (''rc'', ''1.'')
   \<and> str_split (CHR ''.'') ''1.'' = [''1'', []]
   \<and> py_int [] = Inl ValueError
   \<and> parse_version ''v1.2.3-rc.1.'' = Inl ValueError
   \<and> parse_version ''v1.2.3-rc.x'' = Inr (Version 1 2 3 (- 1) 0 [])"
  by code_simp

section \<open>The round trip of the full pattern\<close>

lemma lstrip_v_digit: "is_digit c \<Longrightarrow> lstrip ''v'' (c # r) = c # r"
  using is_digit_not_special(5) [of c] by (simp add: lstrip_def)

lemma lstrip_v_v: "lstrip ''v'' (''v'' @ s) = lstrip ''v'' s"
  by (simp add: lstrip_def)

lemma str_partition_sep:
  assumes "sep \<notin> set base"
  shows "str_partition sep (base @ sep # suf) = (base, [sep], suf)"
proof -
  have "takeWhile (\<lambda>c. c \<noteq> sep) (base @ sep # suf) = base"
    using assms by (simp add: takeWhile_append)
  moreover have "dropWhile (\<lambda>c. c \<noteq> sep) (base @ sep # suf) = sep # suf"
    using assms by (simp add: dropWhile_append)
  ultimately show ?thesis by (simp add: str_partition_def)
qed

lemma str_split_three:
  assumes "sep \<notin> set a" and "sep \<notin> set b" and "sep \<notin> set c"
  shows "str_split sep (a @ sep # b @ sep # c) = [a, b, c]"
  using assms by (simp add: str_split_append str_split_no_sep)

lemma unpack3_digits:
  assumes "a \<noteq> [] \<and> list_all is_digit a \<and> int (length a) \<le> int_max_str_digits"
    and "b \<noteq> [] \<and> list_all is_digit b \<and> int (length b) \<le> int_max_str_digits"
    and "c \<noteq> [] \<and> list_all is_digit c \<and> int (length c) \<le> int_max_str_digits"
  shows "unpack3 [a, b, c] = Inr (digits_value a, digits_value b, digits_value c)"
  using assms by (simp add: unpack3_def py_int_digits)

lemma match_stage_names:
  assumes "stage \<in> set [''alpha'', ''preview'', ''rc'', ''rtm'']"
  shows "match_stage (stage @ r) = Some (stage, r)"
proof -
  from assms consider "stage = ''alpha''" | "stage = ''preview''" | "stage = ''rc''" | "stage = ''rtm''"
    by auto
  then show ?thesis
    by cases (simp_all add: match_stage_def startswith_def)
qed

lemma stage_names_priority:
  assumes "stage \<in> set [''alpha'', ''preview'', ''rc'', ''rtm'']"
  shows "stage_priority_of (Some stage) < 4"
    and "stage_names (stage_priority_of (Some stage)) = Some stage"
proof -
  from assms consider "stage = ''alpha''" | "stage = ''preview''" | "stage = ''rc''" | "stage = ''rtm''"
    by auto
  then show "stage_priority_of (Some stage) < 4"
    by cases (simp_all add: stage_priority_of_values)
  from assms consider "stage = ''alpha''" | "stage = ''preview''" | "stage = ''rc''" | "stage = ''rtm''"
    by auto
  then show "stage_names (stage_priority_of (Some stage)) = Some stage"
    by cases (simp_all add: stage_priority_of_values stage_names_def)
qed

lemma join_Cons: "bs \<noteq> [] \<Longrightarrow> join sep (b # bs) = b @ sep @ join sep bs"
  by (cases bs) simp_all

lemma str_split_join:
  assumes "bs \<noteq> []" and "\<forall>b\<in>set bs. sep \<notin> set b"
  shows "str_split sep (join [sep] bs) = bs"
  using assms
proof (induction bs)
  case Nil
  then show ?case by simp
next
  case (Cons b bs)
  show ?case
  proof (cases "bs = []")
    case True
    with Cons.prems show ?thesis by (simp add: str_split_no_sep)
  next
    case False
    have "str_split sep (join [sep] (b # bs)) = str_split sep (b @ sep # join [sep] bs)"
      using False by (simp add: join_Cons)
    also have "\<dots> = b # str_split sep (join [sep] bs)"
      using Cons.prems by (simp add: str_split_append)
    also have "\<dots> = b # bs" using Cons.IH False Cons.prems by simp
    finally show ?thesis .
  qed
qed

lemma set_join: "set (join sep bs) \<subseteq> set sep \<union> \<Union> (set ` set bs)"
  by (induction sep bs rule: join.induct) auto

lemma join_not_Nil: "bs \<noteq> [] \<Longrightarrow> hd bs \<noteq> [] \<Longrightarrow> join sep bs \<noteq> []"
  by (cases bs; cases "tl bs") auto

lemma full_match_pattern:
  assumes stage: "stage \<in> set [''alpha'', ''preview'', ''rc'', ''rtm'']"
    and N: "N \<noteq> []" "list_all is_digit N"
    and g: "g \<noteq> []" "list_all is_digit_or_dot g"
  shows "full_match (stage @ ''.'' @ N @ ''.'' @ g) = Some (stage, N, g)"
proof -
  have dot: "\<not> is_digit (CHR ''.'')" using is_digit_not_special(1) by blast
  have allN: "\<forall>x\<in>set N. is_digit x" using N(2) by (simp add: list_all_iff)
  have tw: "takeWhile is_digit (N @ CHR ''.'' # g) = N"
    using allN dot by (simp add: takeWhile_append)
  have dw: "dropWhile is_digit (N @ CHR ''.'' # g) = CHR ''.'' # g"
    using allN dot by (simp add: dropWhile_append)
  have twg: "takeWhile is_digit_or_dot g = g"
    using g(2) by (simp add: list_all_iff)
  have ms: "match_stage (stage @ CHR ''.'' # N @ CHR ''.'' # g) = Some (stage, CHR ''.'' # N @ CHR ''.'' # g)"
    by (rule match_stage_names [OF stage])
  show ?thesis
    using N(1) g(1) by (simp add: full_match_def ms eat_dot_def tw dw twg)
qed

lemma canonical_list:
  assumes "list_all canonical_number bs"
  shows "list_all (\<lambda>d. d \<noteq> [] \<and> list_all is_digit d \<and> int (length d) \<le> int_max_str_digits) bs"
    and "\<forall>b\<in>set bs. CHR ''.'' \<notin> set b"
    and "map py_str (map digits_value bs) = bs"
proof -
  have c: "canonical_number b" if "b \<in> set bs" for b
    using assms that by (simp add: list_all_iff)
  have "b \<noteq> [] \<and> list_all is_digit b \<and> int (length b) \<le> int_max_str_digits"
    if "b \<in> set bs" for b
    by (rule canonical_digits [OF c [OF that]])
  then show "list_all (\<lambda>d. d \<noteq> [] \<and> list_all is_digit d \<and> int (length d) \<le> int_max_str_digits) bs"
    unfolding list_all_iff [of _ bs] by blast
  show "\<forall>b\<in>set bs. CHR ''.'' \<notin> set b"
    using c canonical_digits digits_no_special(1) by blast
  have "map (\<lambda>b. py_str (digits_value b)) bs = map (\<lambda>b. b) bs"
    by (rule map_cong [OF refl]) (simp add: c py_str_digits_value)
  then show "map py_str (map digits_value bs) = bs" by (simp add: comp_def)
qed

lemma join_digits_or_dots:
  assumes "list_all (\<lambda>d. d \<noteq> [] \<and> list_all is_digit d \<and> int (length d) \<le> int_max_str_digits) bs"
  shows "list_all is_digit_or_dot (join ''.'' bs)"
proof -
  have "is_digit_or_dot x" if "x \<in> set (join ''.'' bs)" for x
  proof -
    from that set_join [of "''.''" bs] have "x = CHR ''.'' \<or> (\<exists>b\<in>set bs. x \<in> set b)" by auto
    then show ?thesis using assms by (auto simp: is_digit_or_dot_def list_all_iff)
  qed
  then show ?thesis by (simp add: list_all_iff)
qed

text \<open>
  Claim C6, amended.  For every string of the full pattern whose numbers are all in
  canonical decimal writing (no leading zero, at most 4300 digits) and whose stage is
  alpha, preview, rc or rtm, parsing succeeds and rendering the result gives the string
  back; a leading \<open>v\<close> changes nothing, so \<open>v9.0.100-preview.7.25351.106\<close> parses and
  renders to \<open>9.0.100-preview.7.25351.106\<close> (the witness below).
\<close>

theorem render_parse_round_trip:
  assumes A: "canonical_number A" and B: "canonical_number B" and C: "canonical_number C"
    and N: "canonical_number N"
    and bs: "bs \<noteq> []" "list_all canonical_number bs"
    and stage: "stage \<in> set [''alpha'', ''preview'', ''rc'', ''rtm'']"
  shows "parse_version (full_pattern_string A B C stage N bs)
           = Inr (Version (digits_value A) (digits_value B) (digits_value C)
                    (stage_priority_of (Some stage)) (digits_value N) (map digits_value bs))
       \<and> version_to_string (Version (digits_value A) (digits_value B) (digits_value C)
                    (stage_priority_of (Some stage)) (digits_value N) (map digits_value bs))
           = Inr (full_pattern_string A B C stage N bs)
       \<and> parse_version (''v'' @ full_pattern_string A B C stage N bs)
           = parse_version (full_pattern_string A B C stage N bs)"
proof -
  let ?s = "full_pattern_string A B C stage N bs"
  let ?base = "A @ CHR ''.'' # B @ CHR ''.'' # C"
  let ?g = "join ''.'' bs"
  let ?suf = "stage @ ''.'' @ N @ ''.'' @ ?g"
  let ?v = "Version (digits_value A) (digits_value B) (digits_value C)
                    (stage_priority_of (Some stage)) (digits_value N) (map digits_value bs)"
  note dA = canonical_digits [OF A] and dB = canonical_digits [OF B]
    and dC = canonical_digits [OF C] and dN = canonical_digits [OF N]
  note cl = canonical_list [OF bs(2)]
  have s: "?s = ?base @ CHR ''-'' # ?suf" by (simp add: full_pattern_string_def)
  obtain a A' where A': "A = a # A'" "is_digit a" using dA by (cases A) auto
  have hd_s: "?s = a # (A' @ CHR ''.'' # B @ CHR ''.'' # C @ CHR ''-'' # ?suf)"
    by (simp add: full_pattern_string_def A'(1))
  have ls: "lstrip ''v'' ?s = ?s"
    unfolding hd_s by (rule lstrip_v_digit [OF A'(2)])
  have nodash: "CHR ''-'' \<notin> set ?base"
    using digits_no_special(2) dA dB dC by simp
  have part: "str_partition (CHR ''-'') (lstrip ''v'' ?s) = (?base, ''-'', ?suf)"
  proof -
    have "str_partition (CHR ''-'') ?s = (?base, ''-'', ?suf)"
      unfolding s by (rule str_partition_sep [OF nodash])
    then show ?thesis by (simp only: ls)
  qed
  have split: "str_split (CHR ''.'') ?base = [A, B, C]"
    using digits_no_special(1) dA dB dC by (simp add: str_split_three)
  have base: "unpack3 (str_split (CHR ''.'') ?base) = Inr (digits_value A, digits_value B, digits_value C)"
    unfolding split by (rule unpack3_digits [OF dA dB dC])
  have g_ne: "?g \<noteq> []"
  proof (rule join_not_Nil [OF bs(1)])
    have "hd bs \<in> set bs" using bs(1) by simp
    then show "hd bs \<noteq> []" using cl(1) by (auto simp: list_all_iff)
  qed
  have g_ok: "list_all is_digit_or_dot ?g" by (rule join_digits_or_dots [OF cl(1)])
  have fm: "full_match ?suf = Some (stage, N, ?g)"
    using dN by (intro full_match_pattern [OF stage _ _ g_ne g_ok]) simp_all
  have sp: "str_split (CHR ''.'') ?g = bs"
    by (rule str_split_join [OF bs(1) cl(2)])
  have suf_ne: "?suf \<noteq> []" using full_match_SomeD(4) [OF fm] .
  have pN: "py_int N = Inr (digits_value N)" using dN by (simp add: py_int_digits)
  have ps: "parse_suffix ?suf = Inr (Some stage, digits_value N, map digits_value bs)"
    unfolding parse_suffix_def using suf_ne
    by (simp only: fm sp pN map_int_digits [OF cl(1)] option.case prod.case sum.case) simp
  have parse: "parse_version ?s = Inr ?v"
    unfolding parse_version_unfold [OF part base] ps by simp
  have builds: "map (py_str \<circ> digits_value) bs = bs" using cl(3) by simp
  have render: "version_to_string ?v = Inr ?s"
    using stage_names_priority [OF stage]
    by (simp add: version_to_string_def full_pattern_string_def builds
        py_str_digits_value [OF A] py_str_digits_value [OF B] py_str_digits_value [OF C]
        py_str_digits_value [OF N])
  have "lstrip ''v'' (''v'' @ ?s) = lstrip ''v'' ?s" by (rule lstrip_v_v)
  then have v: "parse_version (''v'' @ ?s) = parse_version ?s"
    by (simp only: parse_version_def)
  from parse render v show ?thesis by simp
qed

theorem render_parse_round_trip_witness:
  "canonical_number ''9'' \<and> canonical_number ''0'' \<and> canonical_number ''100''
   \<and> canonical_number ''7'' \<and> list_all canonical_number [''25351'', ''106'']
   \<and> full_pattern_string ''9'' ''0'' ''100'' ''preview'' ''7'' [''25351'', ''106'']
        = ''9.0.100-preview.7.25351.106''
   \<and> parse_version ''v9.0.100-preview.7.25351.106'' = Inr (Version 9 0 100 1 7 [25351, 106])
   \<and> version_to_string (Version 9 0 100 1 7 [25351, 106]) = Inr ''9.0.100-preview.7.25351.106''"
proof -
  have c: "canonical_number ''9''" "canonical_number ''0''" "canonical_number ''100''"
    "canonical_number ''7''" "list_all canonical_number [''25351'', ''106'']"
    by code_simp+
  have st: "''preview'' \<in> set [''alpha'', ''preview'', ''rc'', ''rtm'']" by simp
  have ne: "[''25351'', ''106''] \<noteq> []" by simp
  have f: "full_pattern_string ''9'' ''0'' ''100'' ''preview'' ''7'' [''25351'', ''106'']
        = ''9.0.100-preview.7.25351.106''"
    by code_simp
  have v: "Version (digits_value ''9'') (digits_value ''0'') (digits_value ''100'')
             (stage_priority_of (Some ''preview'')) (digits_value ''7'')
             (map digits_value [''25351'', ''106'']) = Version 9 0 100 1 7 [25351, 106]"
    by code_simp
  have a: "''v'' @ ''9.0.100-preview.7.25351.106'' = ''v9.0.100-preview.7.25351.106''" by simp
  from render_parse_round_trip [OF c(1) c(2) c(3) c(4) ne c(5) st]
  have "parse_version ''v9.0.100-preview.7.25351.106'' = Inr (Version 9 0 100 1 7 [25351, 106])
      \<and> version_to_string (Version 9 0 100 1 7 [25351, 106]) = Inr ''9.0.100-preview.7.25351.106''"
    unfolding f v a by simp
  with c f show ?thesis by simp
qed

text \<open>
  Claim C6 as stated speaks of every string that matches the full pattern.  The pattern
  \<open>\d+\<close> accepts \<open>07\<close>, \<open>int\<close> reads it as 7, and rendering writes \<open>7\<close>: the round trip
  does not give the string back.
\<close>

theorem round_trip_leading_zero_counterexample:
  "full_match ''preview.07.25351.106'' = Some (''preview'', ''07'', ''25351.106'')
   \<and> parse_version ''9.0.100-preview.07.25351.106'' = Inr (Version 9 0 100 1 7 [25351, 106])
   \<and> version_to_string (Version 9 0 100 1 7 [25351, 106]) = Inr ''9.0.100-preview.7.25351.106''
   \<and> ''9.0.100-preview.7.25351.106'' \<noteq> ''9.0.100-preview.07.25351.106''"
  by code_simp

end
